theory Spec2Isabelle
  imports Complex_Main
begin

section \<open>The 987 engine: a Fibonacci variant of 2048\<close>

text \<open>
  A shallow embedding of \<^verbatim>\<open>nineeightseven/nineeightseven.py\<close>: the line primitives
  (\<^verbatim>\<open>pad_values\<close>, \<^verbatim>\<open>combine_values\<close>, \<^verbatim>\<open>reverse\<close>, \<^verbatim>\<open>ith_column\<close>, \<^verbatim>\<open>transpose\<close>,
  \<^verbatim>\<open>insert_value\<close>) and the methods of \<^verbatim>\<open>TwentyFourtyEightBoard\<close> (\<^verbatim>\<open>move\<close>,
  \<^verbatim>\<open>is_game_over\<close>, \<^verbatim>\<open>best_move\<close>, \<^verbatim>\<open>with_random_tile\<close>).

  Python integers are \<open>int\<close>, tuples and lists are lists, exceptions are values of the
  type \<open>error\<close>, and the global random generator is an explicit argument that every
  drawing function returns updated.
\<close>

subsection \<open>Data\<close>

type_synonym CELL = "int \<times> int"
type_synonym GROUP = "CELL list"
type_synonym BOARD = "GROUP list"

datatype Direction = UP | DOWN | LEFT | RIGHT

text \<open>\<^verbatim>\<open>for direction in Direction\<close> follows the order of the members of the enum.\<close>

definition Directions :: "Direction list" where
  "Directions = [UP, DOWN, LEFT, RIGHT]"

abbreviation BOARD_SIZE :: nat where
  "BOARD_SIZE \<equiv> 4"

datatype error = ValueError | IndexError | ZeroDivisionError

subsection \<open>The random generator\<close>

text \<open>
  The module draws from Python's global generator. Here the generator is the infinite
  sequence of its future raw outputs, one for each call of \<^verbatim>\<open>randint\<close>, \<^verbatim>\<open>choice\<close> or
  \<^verbatim>\<open>random\<close>; a call reads the head and leaves the tail. \<^verbatim>\<open>randint(a, b)\<close> and
  \<^verbatim>\<open>choice\<close> reduce the raw output below their bound (\<^verbatim>\<open>choice\<close> raises
  \<^verbatim>\<open>IndexError\<close> on an empty sequence), and \<^verbatim>\<open>random()\<close> is a multiple of
  \<open>2\<^sup>-\<^sup>5\<^sup>3\<close> in \<open>[0, 1)\<close>. The threshold \<^verbatim>\<open>0.9\<close> of \<^verbatim>\<open>with_random_tile\<close> is the
  real number \<open>9/10\<close>: no multiple of \<open>2\<^sup>-\<^sup>5\<^sup>3\<close> lies between it and the double
  nearest to it, so the comparison has the same outcome.
\<close>

type_synonym rng = "nat \<Rightarrow> nat"

type_synonym 'a rand = "rng \<Rightarrow> error + ('a \<times> rng)"

definition next_raw :: "rng \<Rightarrow> nat \<times> rng" where
  "next_raw g = (g 0, \<lambda>n. g (Suc n))"

definition randbelow :: "nat \<Rightarrow> rng \<Rightarrow> nat \<times> rng" where
  "randbelow n g = (case next_raw g of (r, g') \<Rightarrow> (r mod n, g'))"

definition randint :: "int \<Rightarrow> int \<Rightarrow> rng \<Rightarrow> int \<times> rng" where
  "randint a b g = (case randbelow (nat (b - a + 1)) g of (r, g') \<Rightarrow> (a + int r, g'))"

definition random_choice :: "'a list \<Rightarrow> 'a rand" where
  "random_choice xs g =
     (if xs = [] then Inl IndexError
      else case randbelow (length xs) g of (r, g') \<Rightarrow> Inr (xs ! r, g'))"

definition random_random :: "rng \<Rightarrow> real \<times> rng" where
  "random_random g = (case randbelow (2 ^ 53) g of (r, g') \<Rightarrow> (real r / 2 ^ 53, g'))"

definition get_random_key :: "rng \<Rightarrow> int \<times> rng" where
  "get_random_key g = randint 0 1000000 g"

subsection \<open>Subscripts and comprehensions\<close>

text \<open>\<^verbatim>\<open>xs[i]\<close> with \<open>i \<ge> 0\<close>: an index past the end raises \<^verbatim>\<open>IndexError\<close>.\<close>

definition subscript :: "'a list \<Rightarrow> nat \<Rightarrow> error + 'a" where
  "subscript xs i = (if i < length xs then Inr (xs ! i) else Inl IndexError)"

text \<open>\<^verbatim>\<open>tuple(f(j) for j in js)\<close>, stopping at the first exception.\<close>

fun collect :: "(nat \<Rightarrow> error + 'a) \<Rightarrow> nat list \<Rightarrow> error + 'a list" where
  "collect f [] = Inr []"
| "collect f (j # js) =
     (case f j of
        Inl e \<Rightarrow> Inl e
      | Inr x \<Rightarrow> (case collect f js of Inl e \<Rightarrow> Inl e | Inr xs \<Rightarrow> Inr (x # xs)))"

text \<open>The same comprehension when \<open>f\<close> may draw random numbers.\<close>

fun collect_rand :: "(nat \<Rightarrow> 'a rand) \<Rightarrow> nat list \<Rightarrow> 'a list rand" where
  "collect_rand f [] g = Inr ([], g)"
| "collect_rand f (j # js) g =
     (case f j g of
        Inl e \<Rightarrow> Inl e
      | Inr (x, g1) \<Rightarrow>
          (case collect_rand f js g1 of
             Inl e \<Rightarrow> Inl e
           | Inr (xs, g2) \<Rightarrow> Inr (x # xs, g2)))"

subsection \<open>Line primitives\<close>

text \<open>\<^verbatim>\<open>[(0, get_random_key()) for _ in range(n)]\<close>\<close>

fun fresh_zeros :: "nat \<Rightarrow> rng \<Rightarrow> CELL list \<times> rng" where
  "fresh_zeros 0 g = ([], g)"
| "fresh_zeros (Suc n) g =
     (case get_random_key g of (k, g1) \<Rightarrow>
        (case fresh_zeros n g1 of (cs, g2) \<Rightarrow> ((0, k) # cs, g2)))"

definition pad_values :: "CELL list \<Rightarrow> GROUP rand" where
  "pad_values v g =
     (if length v > BOARD_SIZE then Inl ValueError
      else case fresh_zeros (BOARD_SIZE - length v) g of (cs, g') \<Rightarrow> Inr (v @ cs, g'))"

text \<open>
  The loop of \<^verbatim>\<open>combine_values\<close>: \<open>i\<close> is the loop index over \<^verbatim>\<open>range(len(values))\<close>,
  the other three arguments are the loop's variables.
\<close>

function combine_loop ::
  "CELL list \<Rightarrow> nat \<Rightarrow> nat \<Rightarrow> CELL list \<Rightarrow> int \<Rightarrow> CELL list \<times> int" where
  "combine_loop values i values_counter new_values score =
     (if i < length values then
        if values_counter = i + 1 then
          combine_loop values (i + 1) values_counter new_values score
        else if i + 1 < length values then
          if fst (values ! i) = fst (values ! (i + 1)) \<and> fst (values ! (i + 1)) = 1 then
            combine_loop values (i + 1) (values_counter + 1 + 1)
              (new_values @ [(2, snd (values ! (i + 1)))]) (score + 2)
          else if \<bar>fst (values ! i) - fst (values ! (i + 1))\<bar> = 1 then
            combine_loop values (i + 1) (values_counter + 1 + 1)
              (new_values @
                 [(max (fst (values ! i)) (fst (values ! (i + 1))) + 1, snd (values ! (i + 1)))])
              (score + (fst (values ! i) + fst (values ! (i + 1))))
          else
            combine_loop values (i + 1) (values_counter + 1) (new_values @ [values ! i]) score
        else
          combine_loop values (i + 1) (values_counter + 1) (new_values @ [values ! i]) score
      else (new_values, score))"
  by pat_completeness auto
termination
  by (relation "measure (\<lambda>(values, i, _). length values - i)") auto

declare combine_loop.simps [simp del]

definition combine_values :: "GROUP \<Rightarrow> CELL list \<times> int" where
  "combine_values grp = combine_loop (filter (\<lambda>cell. fst cell \<noteq> 0) grp) 0 0 [] 0"

definition reverse :: "'a list \<Rightarrow> 'a list" where
  "reverse grp = rev grp"

definition ith_column :: "'a list list \<Rightarrow> nat \<Rightarrow> error + 'a list" where
  "ith_column board i =
     collect (\<lambda>j. case subscript board j of Inl e \<Rightarrow> Inl e | Inr row \<Rightarrow> subscript row i)
       [0..<BOARD_SIZE]"

definition ith_row :: "'a list list \<Rightarrow> nat \<Rightarrow> error + 'a list" where
  "ith_row board i = subscript board i"

definition transpose_board :: "'a list list \<Rightarrow> error + 'a list list" where
  "transpose_board board = collect (\<lambda>i. ith_column board i) [0..<BOARD_SIZE]"

definition insert_value_row :: "GROUP \<Rightarrow> nat \<Rightarrow> int \<Rightarrow> GROUP rand" where
  "insert_value_row row i v g =
     (case get_random_key g of (random_value, g') \<Rightarrow>
        (case collect (\<lambda>j. if i = j then Inr (v, random_value) else subscript row j)
                [0..<BOARD_SIZE] of
           Inl e \<Rightarrow> Inl e
         | Inr r \<Rightarrow> Inr (r, g')))"

definition insert_value :: "BOARD \<Rightarrow> nat \<Rightarrow> nat \<Rightarrow> int \<Rightarrow> BOARD rand" where
  "insert_value board i j v =
     collect_rand
       (\<lambda>k g. case subscript board k of
                Inl e \<Rightarrow> Inl e
              | Inr row \<Rightarrow> if i = k then insert_value_row row j v g else Inr (row, g))
       [0..<BOARD_SIZE]"

subsection \<open>The board\<close>

text \<open>
  The four private moves share one loop over \<^verbatim>\<open>range(BOARD_SIZE)\<close>: \<open>line\<close> is
  \<^verbatim>\<open>ith_column\<close> or \<^verbatim>\<open>ith_row\<close>, and \<open>rv\<close> says whether the line is reversed before
  combining and the padded line reversed back.
\<close>

fun move_loop ::
  "('a \<Rightarrow> nat \<Rightarrow> error + GROUP) \<Rightarrow> bool \<Rightarrow> 'a \<Rightarrow> nat list \<Rightarrow> GROUP list \<Rightarrow> int
     \<Rightarrow> (GROUP list \<times> int) rand" where
  "move_loop line rv board [] new_board total_score g = Inr ((new_board, total_score), g)"
| "move_loop line rv board (i # is) new_board total_score g =
     (case line board i of
        Inl e \<Rightarrow> Inl e
      | Inr grp \<Rightarrow>
          (case combine_values (if rv then reverse grp else grp) of (values, score) \<Rightarrow>
             (case pad_values values g of
                Inl e \<Rightarrow> Inl e
              | Inr (padded, g') \<Rightarrow>
                  move_loop line rv board is
                    (new_board @ [if rv then reverse padded else padded])
                    (total_score + score) g')))"

definition transposed :: "(GROUP list \<times> int) rand \<Rightarrow> (BOARD \<times> int) rand" where
  "transposed m g =
     (case m g of
        Inl e \<Rightarrow> Inl e
      | Inr ((new_board, total_score), g') \<Rightarrow>
          (case transpose_board new_board of
             Inl e \<Rightarrow> Inl e
           | Inr t \<Rightarrow> Inr ((t, total_score), g')))"

definition move_up :: "BOARD \<Rightarrow> (BOARD \<times> int) rand" where
  "move_up board = transposed (move_loop ith_column False board [0..<BOARD_SIZE] [] 0)"

definition move_down :: "BOARD \<Rightarrow> (BOARD \<times> int) rand" where
  "move_down board = transposed (move_loop ith_column True board [0..<BOARD_SIZE] [] 0)"

definition move_left :: "BOARD \<Rightarrow> (BOARD \<times> int) rand" where
  "move_left board = move_loop ith_row False board [0..<BOARD_SIZE] [] 0"

definition move_right :: "BOARD \<Rightarrow> (BOARD \<times> int) rand" where
  "move_right board = move_loop ith_row True board [0..<BOARD_SIZE] [] 0"

definition just_values :: "BOARD \<Rightarrow> int list" where
  "just_values board = concat (map (map fst) board)"

text \<open>The \<^verbatim>\<open>match\<close> statement of \<^verbatim>\<open>move\<close>.\<close>

fun move_raw :: "BOARD \<Rightarrow> Direction \<Rightarrow> (BOARD \<times> int) rand" where
  "move_raw board UP = move_up board"
| "move_raw board DOWN = move_down board"
| "move_raw board LEFT = move_left board"
| "move_raw board RIGHT = move_right board"

text \<open>
  The private moves always build a board, so the \<^verbatim>\<open>assert board is not None\<close> of the
  source cannot fail and has no branch here.
\<close>

definition move :: "BOARD \<Rightarrow> Direction \<Rightarrow> (BOARD option \<times> int) rand" where
  "move self direction g =
     (case move_raw self direction g of
        Inl e \<Rightarrow> Inl e
      | Inr ((board, score), g') \<Rightarrow>
          if just_values self = just_values board then Inr ((None, 0), g')
          else Inr ((Some board, score), g'))"

text \<open>
  \<^verbatim>\<open>self.move(direction) is None\<close> tests the pair that \<^verbatim>\<open>move\<close> returns; a tuple is
  never the object \<^verbatim>\<open>None\<close>, whatever its components.
\<close>

definition tuple_is_None :: "'a \<times> 'b \<Rightarrow> bool" where
  "tuple_is_None t = False"

text \<open>\<^verbatim>\<open>all(... for direction in ds)\<close>, which stops at the first false element.\<close>

fun all_moves_None :: "BOARD \<Rightarrow> Direction list \<Rightarrow> bool rand" where
  "all_moves_None self [] g = Inr (True, g)"
| "all_moves_None self (direction # ds) g =
     (case move self direction g of
        Inl e \<Rightarrow> Inl e
      | Inr (t, g') \<Rightarrow>
          if tuple_is_None t then all_moves_None self ds g' else Inr (False, g'))"

definition is_game_over :: "BOARD \<Rightarrow> bool rand" where
  "is_game_over self = all_moves_None self Directions"

definition empty_tiles :: "BOARD \<Rightarrow> error + (nat \<times> nat) list" where
  "empty_tiles board =
     (case collect
             (\<lambda>i. collect
                    (\<lambda>j. case subscript board i of
                           Inl e \<Rightarrow> Inl e
                         | Inr row \<Rightarrow>
                             (case subscript row j of
                                Inl e \<Rightarrow> Inl e
                              | Inr cell \<Rightarrow> Inr ((i, j), fst cell = 0)))
                    [0..<BOARD_SIZE])
             [0..<BOARD_SIZE] of
        Inl e \<Rightarrow> Inl e
      | Inr rows \<Rightarrow> Inr (map fst (filter snd (concat rows))))"

definition with_random_tile :: "BOARD \<Rightarrow> BOARD rand" where
  "with_random_tile self g =
     (case empty_tiles self of
        Inl e \<Rightarrow> Inl e
      | Inr tiles \<Rightarrow>
          if tiles = [] then Inr (self, g)
          else
            (case random_choice tiles g of
               Inl e \<Rightarrow> Inl e
             | Inr ((i, j), g1) \<Rightarrow>
                 (case random_random g1 of (u, g2) \<Rightarrow>
                    insert_value self i j (if u < 9 / 10 then 1 else 2) g2)))"

subsection \<open>The search\<close>

text \<open>
  \<^verbatim>\<open>sum(new_board.with_random_tile().best_move(depth - 1, breadth)[1] for _ in range(n))\<close>,
  where \<open>rec\<close> is \<^verbatim>\<open>best_move(depth - 1, breadth)\<close>.
\<close>

fun sample_sum :: "(BOARD \<Rightarrow> (Direction \<times> int) rand) \<Rightarrow> BOARD \<Rightarrow> nat \<Rightarrow> int rand" where
  "sample_sum rec new_board 0 g = Inr (0, g)"
| "sample_sum rec new_board (Suc n) g =
     (case with_random_tile new_board g of
        Inl e \<Rightarrow> Inl e
      | Inr (t, g1) \<Rightarrow>
          (case rec t g1 of
             Inl e \<Rightarrow> Inl e
           | Inr ((d, s), g2) \<Rightarrow>
               (case sample_sum rec new_board n g2 of
                  Inl e \<Rightarrow> Inl e
                | Inr (others, g3) \<Rightarrow> Inr (s + others, g3))))"

text \<open>
  The value added to a move's score: nothing unless \<^verbatim>\<open>depth > 0\<close> (\<open>rec\<close> is then the
  search one level down), else the sum of the samples floor-divided by \<^verbatim>\<open>breadth\<close>.
\<close>

definition additional_score ::
  "(BOARD \<Rightarrow> (Direction \<times> int) rand) option \<Rightarrow> int \<Rightarrow> BOARD \<Rightarrow> int rand" where
  "additional_score rec breadth new_board g =
     (case rec of
        None \<Rightarrow> Inr (0, g)
      | Some r \<Rightarrow>
          (case sample_sum r new_board (nat breadth) g of
             Inl e \<Rightarrow> Inl e
           | Inr (samples, g') \<Rightarrow>
               if breadth = 0 then Inl ZeroDivisionError else Inr (samples div breadth, g')))"

text \<open>The loop over the directions, with \<^verbatim>\<open>best_direction\<close> and \<^verbatim>\<open>best_score\<close>.\<close>

fun direction_loop ::
  "(BOARD \<Rightarrow> (Direction \<times> int) rand) option \<Rightarrow> int \<Rightarrow> BOARD \<Rightarrow> Direction list
     \<Rightarrow> Direction \<Rightarrow> int \<Rightarrow> (Direction \<times> int) rand" where
  "direction_loop rec breadth self [] best_direction best_score g =
     Inr ((best_direction, best_score), g)"
| "direction_loop rec breadth self (direction # ds) best_direction best_score g =
     (case move self direction g of
        Inl e \<Rightarrow> Inl e
      | Inr ((None, score), g1) \<Rightarrow>
          direction_loop rec breadth self ds best_direction best_score g1
      | Inr ((Some new_board, score), g1) \<Rightarrow>
          (case additional_score rec breadth new_board g1 of
             Inl e \<Rightarrow> Inl e
           | Inr (average_additional_score, g2) \<Rightarrow>
               if score + average_additional_score > best_score then
                 direction_loop rec breadth self ds direction
                   (score + average_additional_score) g2
               else direction_loop rec breadth self ds best_direction best_score g2))"

definition best_move_body ::
  "(BOARD \<Rightarrow> (Direction \<times> int) rand) option \<Rightarrow> int \<Rightarrow> BOARD \<Rightarrow> (Direction \<times> int) rand" where
  "best_move_body rec breadth self g =
     (case is_game_over self g of
        Inl e \<Rightarrow> Inl e
      | Inr (over, g') \<Rightarrow>
          if over then Inr ((UP, - 123456789), g')
          else direction_loop rec breadth self Directions UP (- 1) g')"

text \<open>
  The recursion of \<^verbatim>\<open>best_move\<close> on \<^verbatim>\<open>depth\<close>: level \<open>0\<close> is every \<^verbatim>\<open>depth \<le> 0\<close>, where
  the test \<^verbatim>\<open>depth > 0\<close> fails.
\<close>

primrec best_move_at :: "nat \<Rightarrow> int \<Rightarrow> BOARD \<Rightarrow> (Direction \<times> int) rand" where
  "best_move_at 0 breadth = best_move_body None breadth"
| "best_move_at (Suc depth) breadth = best_move_body (Some (best_move_at depth breadth)) breadth"

definition best_move :: "BOARD \<Rightarrow> int \<Rightarrow> int \<Rightarrow> (Direction \<times> int) rand" where
  "best_move self depth breadth = best_move_at (nat depth) breadth self"

section \<open>Specification-level definitions\<close>

text \<open>
  The combine routine in the words of the specification: a walk over the dense sequence,
  one merge decision at a time. Two cells of rank 1 merge into rank 2 (score 2); two cells
  whose ranks differ by 1 merge into the greater rank plus 1 (score: the sum of the two
  ranks); in both cases the second cell's key is kept and the walk goes on after the
  second cell. Any other cell is emitted unchanged.
\<close>

fun combine_walk :: "CELL list \<Rightarrow> CELL list \<times> int" where
  "combine_walk [] = ([], 0)"
| "combine_walk [c] = ([c], 0)"
| "combine_walk (c # n # rest) =
     (if fst c = 1 \<and> fst n = 1 then
        (case combine_walk rest of (out, s) \<Rightarrow> ((2, snd n) # out, 2 + s))
      else if \<bar>fst c - fst n\<bar> = 1 then
        (case combine_walk rest of (out, s) \<Rightarrow>
           ((max (fst c) (fst n) + 1, snd n) # out, fst c + fst n + s))
      else (case combine_walk (n # rest) of (out, s) \<Rightarrow> (c # out, s)))"

text \<open>
  The invariant of the data model: a board has exactly \<open>BOARD_SIZE\<close> rows of exactly
  \<open>BOARD_SIZE\<close> cells. Every board the program builds satisfies it.
\<close>

definition valid_board :: "'a list list \<Rightarrow> bool" where
  "valid_board b \<longleftrightarrow> length b = BOARD_SIZE \<and> (\<forall>row\<in>set b. length row = BOARD_SIZE)"

text \<open>
  The rank layout of a board: the ranks without the identity keys, row by row.
\<close>

definition ranks :: "BOARD \<Rightarrow> int list list" where
  "ranks b = map (map fst) b"

text \<open>
  The other invariant of the data model: a rank is never negative.
\<close>

definition ranks_nonneg :: "BOARD \<Rightarrow> bool" where
  "ranks_nonneg b \<longleftrightarrow> (\<forall>row\<in>set b. \<forall>c\<in>set row. 0 \<le> fst c)"

text \<open>
  The transpose of a well-formed grid, as a pure function; on well-formed boards
  \<open>transpose_board\<close> returns it (lemma \<open>transpose_board_valid\<close>).
\<close>

definition tr :: "'a list list \<Rightarrow> 'a list list" where
  "tr b = map (\<lambda>i. map (\<lambda>row. row ! i) b) [0..<BOARD_SIZE]"

text \<open>
  Concrete inputs for the instances below: a board in play and a generator whose raw
  outputs are all \<open>0\<close>.
\<close>

definition sample_board :: BOARD where
  "sample_board =
     [[(1, 1), (1, 2), (0, 3), (0, 4)],
      [(3, 5), (4, 6), (0, 7), (2, 8)],
      [(0, 9), (0, 10), (0, 11), (0, 12)],
      [(5, 13), (0, 14), (5, 15), (6, 16)]]"

definition zero_rng :: rng where
  "zero_rng = (\<lambda>n. 0)"

text \<open>
  The walk of the combine routine on ranks alone, and the whole treatment of a line of
  ranks: drop the zeros, merge, pad with zeros to \<open>BOARD_SIZE\<close>.
\<close>

fun merge_ranks :: "int list \<Rightarrow> int list \<times> int" where
  "merge_ranks [] = ([], 0)"
| "merge_ranks [c] = ([c], 0)"
| "merge_ranks (c # n # rest) =
     (if c = 1 \<and> n = 1 then (case merge_ranks rest of (out, s) \<Rightarrow> (2 # out, 2 + s))
      else if \<bar>c - n\<bar> = 1 then
        (case merge_ranks rest of (out, s) \<Rightarrow> ((max c n + 1) # out, c + n + s))
      else (case merge_ranks (n # rest) of (out, s) \<Rightarrow> (c # out, s)))"

definition slide_ranks :: "int list \<Rightarrow> int list \<times> int" where
  "slide_ranks rs =
     (case merge_ranks (filter (\<lambda>r. r \<noteq> 0) rs) of
        (m, s) \<Rightarrow> (m @ replicate (BOARD_SIZE - length m) 0, s))"

text \<open>
  The rank layout and the score that a move produces, as pure functions of the rank layout
  of the board: \<open>shift_rows rv\<close> treats every row (reversed before and after when
  \<open>rv\<close>), and the vertical moves work on the transpose.
\<close>

definition toward :: "bool \<Rightarrow> 'a list \<Rightarrow> 'a list" where
  "toward rv xs = (if rv then rev xs else xs)"

definition shift_rows :: "bool \<Rightarrow> int list list \<Rightarrow> int list list \<times> int" where
  "shift_rows rv R =
     (map (\<lambda>rs. toward rv (fst (slide_ranks (toward rv rs)))) R,
      sum_list (map (\<lambda>rs. snd (slide_ranks (toward rv rs))) R))"

fun move_ranks :: "Direction \<Rightarrow> int list list \<Rightarrow> int list list \<times> int" where
  "move_ranks UP R = (tr (fst (shift_rows False (tr R))), snd (shift_rows False (tr R)))"
| "move_ranks DOWN R = (tr (fst (shift_rows True (tr R))), snd (shift_rows True (tr R)))"
| "move_ranks LEFT R = shift_rows False R"
| "move_ranks RIGHT R = shift_rows True R"

text \<open>
  \<open>ranks_nonneg\<close> on a rank layout.
\<close>

definition nonneg_grid :: "int list list \<Rightarrow> bool" where
  "nonneg_grid R \<longleftrightarrow> (\<forall>row\<in>set R. \<forall>r\<in>set row. 0 \<le> r)"

text \<open>
  What an observer sees of a result of \<open>move\<close>: whether it is the pair
  \<^verbatim>\<open>(None, 0)\<close>, and the rank layout and score with the keys and the generator
  left out. \<open>on_board f\<close> applies \<open>f\<close> to the rank layout of such an observation.
\<close>

definition returns_None :: "error + (BOARD option \<times> int) \<times> rng \<Rightarrow> bool" where
  "returns_None r = (case r of Inr ((None, s), g) \<Rightarrow> s = 0 | _ \<Rightarrow> False)"




text \<open>
  The number of occupied cells, the absence of empty cells, and the empty positions in
  row-major order as \<^verbatim>\<open>with_random_tile\<close> lists them.
\<close>

definition occupied :: "BOARD \<Rightarrow> nat" where
  "occupied b = length (filter (\<lambda>c. fst c \<noteq> 0) (concat b))"

definition no_empty_cell :: "BOARD \<Rightarrow> bool" where
  "no_empty_cell b \<longleftrightarrow> list_all (list_all (\<lambda>c. fst c \<noteq> 0)) b"

definition positions :: "BOARD \<Rightarrow> (nat \<times> nat) list" where
  "positions b =
     map fst (filter snd (concat (map (\<lambda>i. map (\<lambda>j. ((i, j), fst (b ! i ! j) = 0))
        [0..<BOARD_SIZE]) [0..<BOARD_SIZE])))"

text \<open>
  One step of the loop of \<^verbatim>\<open>best_move\<close> on its pair of variables: a candidate replaces
  the best so far only when its total is strictly greater.
\<close>

fun better :: "Direction \<times> int \<Rightarrow> Direction \<times> int \<Rightarrow> Direction \<times> int" where
  "better (best_direction, best_score) (direction, score) =
     (if score > best_score then (direction, score) else (best_direction, best_score))"

text \<open>
  The selection in the words of the specification: the candidate whose total is greatest,
  the first one in the order of the list among equals. \<open>None\<close> when there is no candidate.
\<close>

fun first_greatest :: "(Direction \<times> int) list \<Rightarrow> (Direction \<times> int) option" where
  "first_greatest [] = None"
| "first_greatest (c # cs) =
     (case first_greatest cs of
        None \<Rightarrow> Some c
      | Some m \<Rightarrow> if snd m > snd c then Some m else Some c)"

text \<open>
  The totals that the loop of \<^verbatim>\<open>best_move\<close> computes: the same calls in the same order
  as \<open>direction_loop\<close>, threading the generator in the same way, but collecting the pair
  (direction, total) of every direction that is not skipped instead of comparing them.
\<close>

fun candidates ::
  "(BOARD \<Rightarrow> (Direction \<times> int) rand) option \<Rightarrow> int \<Rightarrow> BOARD \<Rightarrow> Direction list
     \<Rightarrow> (Direction \<times> int) list rand" where
  "candidates rec breadth self [] g = Inr ([], g)"
| "candidates rec breadth self (direction # ds) g =
     (case move self direction g of
        Inl e \<Rightarrow> Inl e
      | Inr ((None, score), g1) \<Rightarrow> candidates rec breadth self ds g1
      | Inr ((Some new_board, score), g1) \<Rightarrow>
          (case additional_score rec breadth new_board g1 of
             Inl e \<Rightarrow> Inl e
           | Inr (average_additional_score, g2) \<Rightarrow>
               (case candidates rec breadth self ds g2 of
                  Inl e \<Rightarrow> Inl e
                | Inr (cs, g3) \<Rightarrow>
                    Inr ((direction, score + average_additional_score) # cs, g3))))"

text \<open>
  The search one level down, absent when \<^verbatim>\<open>depth > 0\<close> fails, and the candidates of a
  call of \<^verbatim>\<open>best_move\<close>: the loop starts from the generator that \<^verbatim>\<open>is_game_over\<close>
  leaves.
\<close>

definition search_below :: "int \<Rightarrow> int \<Rightarrow> (BOARD \<Rightarrow> (Direction \<times> int) rand) option" where
  "search_below depth breadth =
     (case nat depth of 0 \<Rightarrow> None | Suc n \<Rightarrow> Some (best_move_at n breadth))"

definition best_move_candidates :: "BOARD \<Rightarrow> int \<Rightarrow> int \<Rightarrow> (Direction \<times> int) list rand" where
  "best_move_candidates self depth breadth g =
     (case is_game_over self g of
        Inl e \<Rightarrow> Inl e
      | Inr (over, g') \<Rightarrow> candidates (search_below depth breadth) breadth self Directions g')"

text \<open>
  The estimates that enter the average, listed: for each of the \<open>n\<close> samples, a tile is
  spawned on the board after the move and \<open>rec\<close> (\<^verbatim>\<open>best_move(depth - 1, breadth)\<close>) is
  asked for its score. \<open>total_of\<close> says what the total of a candidate is in the words of
  the specification: the score of its move, plus, when there is a search one level down,
  the sum of the \<open>breadth\<close> estimates floor-divided by \<open>breadth\<close>.
\<close>

fun sample_estimates ::
  "(BOARD \<Rightarrow> (Direction \<times> int) rand) \<Rightarrow> BOARD \<Rightarrow> nat \<Rightarrow> int list rand" where
  "sample_estimates rec new_board 0 g = Inr ([], g)"
| "sample_estimates rec new_board (Suc n) g =
     (case with_random_tile new_board g of
        Inl e \<Rightarrow> Inl e
      | Inr (t, g1) \<Rightarrow>
          (case rec t g1 of
             Inl e \<Rightarrow> Inl e
           | Inr ((d, s), g2) \<Rightarrow>
               (case sample_estimates rec new_board n g2 of
                  Inl e \<Rightarrow> Inl e
                | Inr (xs, g3) \<Rightarrow> Inr (s # xs, g3))))"

definition total_of ::
  "(BOARD \<Rightarrow> (Direction \<times> int) rand) option \<Rightarrow> int \<Rightarrow> BOARD \<Rightarrow> Direction \<times> int \<Rightarrow> bool" where
  "total_of rec breadth b c \<longleftrightarrow>
     (\<exists>nb s g1 g2. move b (fst c) g1 = Inr ((Some nb, s), g2)
        \<and> (case rec of
             None \<Rightarrow> snd c = s
           | Some r \<Rightarrow>
               (\<exists>xs g3. sample_estimates r nb (nat breadth) g2 = Inr (xs, g3)
                  \<and> length xs = nat breadth \<and> snd c = s + sum_list xs div breadth)))"

text \<open>
  The recursive search returns (raises nothing) on every well-formed board.
\<close>

definition returns_on_valid :: "(BOARD \<Rightarrow> (Direction \<times> int) rand) option \<Rightarrow> bool" where
  "returns_on_valid rec \<longleftrightarrow>
     (\<forall>r t g. rec = Some r \<longrightarrow> valid_board t \<longrightarrow> (\<exists>x g'. r t g = Inr (x, g')))"

text \<open>
  Three more concrete boards: every cell of rank 5 but an empty bottom-right corner; every
  cell of rank 5, where no move changes anything; and the all-empty board.
\<close>

definition corner_board :: BOARD where
  "corner_board =
     [[(5, 1), (5, 2), (5, 3), (5, 4)],
      [(5, 5), (5, 6), (5, 7), (5, 8)],
      [(5, 9), (5, 10), (5, 11), (5, 12)],
      [(5, 13), (5, 14), (5, 15), (0, 16)]]"

definition full_board :: BOARD where
  "full_board =
     [[(5, 1), (5, 2), (5, 3), (5, 4)],
      [(5, 5), (5, 6), (5, 7), (5, 8)],
      [(5, 9), (5, 10), (5, 11), (5, 12)],
      [(5, 13), (5, 14), (5, 15), (5, 16)]]"

definition empty_board :: BOARD where
  "empty_board =
     [[(0, 1), (0, 2), (0, 3), (0, 4)],
      [(0, 5), (0, 6), (0, 7), (0, 8)],
      [(0, 9), (0, 10), (0, 11), (0, 12)],
      [(0, 13), (0, 14), (0, 15), (0, 16)]]"

section \<open>The combine routine\<close>

lemma combine_loop_skip:
  "i < length vs \<Longrightarrow> combine_loop vs i (Suc i) nv sc = combine_loop vs (Suc i) (Suc i) nv sc"
  by (subst combine_loop.simps) simp

lemma combine_loop_end:
  "length vs \<le> i \<Longrightarrow> combine_loop vs i c nv sc = (nv, sc)"
  by (subst combine_loop.simps) simp

text \<open>
  The loop invariant: when the counter agrees with the index, the rest of the loop is the
  walk over the remaining cells.
\<close>

lemma combine_loop_walk:
  "i \<le> length vs \<Longrightarrow>
   combine_loop vs i i nv sc =
     (nv @ fst (combine_walk (drop i vs)), sc + snd (combine_walk (drop i vs)))"
proof (induction "length vs - i" arbitrary: i nv sc rule: less_induct)
  case less
  consider (stop) "i = length vs" | (single) "Suc i = length vs" | (more) "Suc i < length vs"
    using less.prems by linarith
  then show ?case
  proof cases
    case stop
    then show ?thesis by (simp add: combine_loop_end)
  next
    case single
    then have d: "drop i vs = [vs ! i]"
      by (metis Cons_nth_drop_Suc drop_all lessI order_refl)
    show ?thesis using single
      by (subst combine_loop.simps) (simp add: d combine_loop_end)
  next
    case more
    then have d: "drop i vs = vs ! i # vs ! Suc i # drop (Suc (Suc i)) vs"
      by (metis Cons_nth_drop_Suc Suc_lessD)
    have d1: "drop (Suc i) vs = vs ! Suc i # drop (Suc (Suc i)) vs"
      using more by (metis Cons_nth_drop_Suc)
    have ih1: "\<And>nv sc. combine_loop vs (Suc i) (Suc i) nv sc =
        (nv @ fst (combine_walk (drop (Suc i) vs)), sc + snd (combine_walk (drop (Suc i) vs)))"
      using less.hyps [of "Suc i"] more by simp
    have ih2: "\<And>nv sc. combine_loop vs (Suc (Suc i)) (Suc (Suc i)) nv sc =
        (nv @ fst (combine_walk (drop (Suc (Suc i)) vs)),
         sc + snd (combine_walk (drop (Suc (Suc i)) vs)))"
      using less.hyps [of "Suc (Suc i)"] more by simp
    show ?thesis using more
      by (subst combine_loop.simps)
         (auto simp add: d combine_loop_skip ih2 ih1 d1 split: prod.splits)
  qed
qed

text \<open>
  Claim C2. On every line, \<^verbatim>\<open>combine_values\<close> drops the empty cells, keeping the order
  of the others, and then walks the dense sequence from left to right as
  \<open>combine_walk\<close> does: a pair of rank-1 cells becomes one cell of rank 2 with the
  second cell's key and adds 2 to the score; a pair whose ranks differ by exactly 1 becomes
  one cell of rank \<open>max + 1\<close> with the second cell's key and adds the sum of the two
  ranks; any other cell is emitted unchanged; and a cell consumed by a merge is not
  looked at again.
\<close>

theorem combine_values_is_walk:
  "combine_values line = combine_walk (filter (\<lambda>cell. fst cell \<noteq> 0) line)"
  by (simp add: combine_values_def combine_loop_walk)

text \<open>
  The instances of the specification: the adjacent-rank merge \<open>3, 4\<close> gives rank 5 with
  score 7, a line of three ones and a two, and a line without a merge.
\<close>

theorem combine_values_is_walk_witness:
  "combine_values [(3, 10), (4, 20), (0, 30), (0, 40)] = ([(5, 20)], 7)
   \<and> combine_values [(1, 10), (1, 20), (1, 30), (2, 40)] = ([(2, 20), (3, 40)], 5)
   \<and> combine_values [(3, 10), (0, 20), (6, 30), (0, 40)] = ([(3, 10), (6, 30)], 0)"
  by (simp add: combine_values_is_walk)

section \<open>Well-formed boards\<close>

lemma collect_map:
  "(\<And>j. j \<in> set js \<Longrightarrow> f j = Inr (h j)) \<Longrightarrow> collect f js = Inr (map h js)"
  by (induction js) simp_all

lemma valid_board_nth:
  "valid_board b \<Longrightarrow> i < BOARD_SIZE \<Longrightarrow> length (b ! i) = BOARD_SIZE"
  by (simp add: valid_board_def)

lemma ith_row_valid:
  "valid_board b \<Longrightarrow> i < BOARD_SIZE \<Longrightarrow> ith_row b i = Inr (b ! i)"
  by (simp add: ith_row_def subscript_def valid_board_def)

lemma ith_column_valid:
  assumes "valid_board b" "i < BOARD_SIZE"
  shows "ith_column b i = Inr (tr b ! i)"
proof -
  have "ith_column b i = Inr (map (\<lambda>j. b ! j ! i) [0..<BOARD_SIZE])"
    unfolding ith_column_def using assms
    by (intro collect_map) (simp add: subscript_def valid_board_def)
  moreover have "map (\<lambda>j. b ! j ! i) [0..<BOARD_SIZE] = map (\<lambda>row. row ! i) b"
    using assms(1) by (simp add: valid_board_def list_eq_iff_nth_eq)
  ultimately show ?thesis using assms(2) by (simp add: tr_def del: upt_Suc)
qed

lemma valid_board_tr: "valid_board b \<Longrightarrow> valid_board (tr b)"
  by (auto simp: valid_board_def tr_def)

lemma transpose_board_valid:
  assumes "valid_board b"
  shows "transpose_board b = Inr (tr b)"
proof -
  have "transpose_board b = Inr (map (\<lambda>i. tr b ! i) [0..<BOARD_SIZE])"
    unfolding transpose_board_def using assms
    by (intro collect_map) (simp add: ith_column_valid)
  moreover have "map (\<lambda>i. tr b ! i) [0..<BOARD_SIZE] = tr b"
    using valid_board_tr [OF assms] by (simp add: valid_board_def list_eq_iff_nth_eq)
  ultimately show ?thesis by simp
qed


lemma ranks_tr: "valid_board b \<Longrightarrow> ranks (tr b) = tr (ranks b)"
  by (simp add: ranks_def tr_def valid_board_def)

lemma valid_board_ranks [simp]: "valid_board (ranks b) = valid_board b"
  by (simp add: valid_board_def ranks_def)

section \<open>Lines: ranks, lengths and padding\<close>

lemma walk_ranks:
  "map fst (fst (combine_walk vs)) = fst (merge_ranks (map fst vs))
   \<and> snd (combine_walk vs) = snd (merge_ranks (map fst vs))"
  by (induction vs rule: combine_walk.induct) (auto split: prod.splits)

lemma combine_values_ranks:
  "map fst (fst (combine_values l)) = fst (merge_ranks (filter (\<lambda>r. r \<noteq> 0) (map fst l)))"
  "snd (combine_values l) = snd (merge_ranks (filter (\<lambda>r. r \<noteq> 0) (map fst l)))"
  by (simp_all add: combine_values_is_walk walk_ranks filter_map comp_def)

lemma merge_ranks_length: "length (fst (merge_ranks rs)) \<le> length rs"
  by (induction rs rule: merge_ranks.induct) (auto split: prod.splits)

lemma combine_values_length: "length (fst (combine_values l)) \<le> length l"
proof -
  have "length (map fst (fst (combine_values l))) \<le> length (filter (\<lambda>r. r \<noteq> 0) (map fst l))"
    unfolding combine_values_ranks by (rule merge_ranks_length)
  also have "\<dots> \<le> length l"
    by (metis length_filter_le length_map)
  finally show ?thesis by simp
qed

lemma fresh_zeros_ranks: "\<exists>cs g'. fresh_zeros n g = (cs, g') \<and> map fst cs = replicate n 0"
proof (induction n arbitrary: g)
  case 0
  then show ?case by simp
next
  case (Suc n)
  obtain k g1 where k: "get_random_key g = (k, g1)" by (cases "get_random_key g")
  from Suc [of g1] obtain cs g2 where "fresh_zeros n g1 = (cs, g2)" "map fst cs = replicate n 0"
    by blast
  with k show ?case by simp
qed

lemma pad_values_ranks:
  assumes "length v \<le> BOARD_SIZE"
  shows "\<exists>p g'. pad_values v g = Inr (p, g')
           \<and> map fst p = map fst v @ replicate (BOARD_SIZE - length v) 0"
proof -
  obtain cs g' where "fresh_zeros (BOARD_SIZE - length v) g = (cs, g')"
    "map fst cs = replicate (BOARD_SIZE - length v) 0"
    using fresh_zeros_ranks by blast
  then show ?thesis using assms by (simp add: pad_values_def)
qed

lemma slide_ranks_length: "length rs \<le> BOARD_SIZE \<Longrightarrow> length (fst (slide_ranks rs)) = BOARD_SIZE"
proof -
  assume a: "length rs \<le> BOARD_SIZE"
  have "length (fst (merge_ranks (filter (\<lambda>r. r \<noteq> 0) rs))) \<le> length rs"
    by (meson le_trans length_filter_le merge_ranks_length)
  then show ?thesis using a by (auto simp add: slide_ranks_def split: prod.splits)
qed

lemma line_step:
  assumes "length l \<le> BOARD_SIZE"
  shows "\<exists>p g'. pad_values (fst (combine_values l)) g = Inr (p, g')
           \<and> map fst p = fst (slide_ranks (map fst l))
           \<and> snd (combine_values l) = snd (slide_ranks (map fst l))"
proof -
  have "length (fst (combine_values l)) \<le> BOARD_SIZE"
    using combine_values_length [of l] assms by linarith
  from pad_values_ranks [OF this, of g] obtain p g' where
    p: "pad_values (fst (combine_values l)) g = Inr (p, g')"
       "map fst p = map fst (fst (combine_values l))
          @ replicate (BOARD_SIZE - length (fst (combine_values l))) 0"
    by blast
  have "length (fst (combine_values l)) = length (map fst (fst (combine_values l)))" by simp
  then have "map fst p = fst (slide_ranks (map fst l))"
    using p(2) unfolding combine_values_ranks
    by (simp add: slide_ranks_def split: prod.splits)
  then show ?thesis using p(1)
    by (simp add: combine_values_ranks slide_ranks_def split: prod.splits)
qed

lemma valid_sample_board: "valid_board sample_board"
  by (simp add: valid_board_def sample_board_def)

lemma nonneg_sample_board: "ranks_nonneg sample_board"
  by (simp add: ranks_nonneg_def sample_board_def)

section \<open>The four moves on a well-formed board\<close>

lemma move_loop_ranks:
  assumes "\<And>i. i \<in> set js \<Longrightarrow> line b i = Inr (L i) \<and> length (L i) \<le> BOARD_SIZE"
  shows "\<exists>new g'. move_loop line rv b js nb ts g =
             Inr ((nb @ new, ts + sum_list (map (\<lambda>i. snd (slide_ranks (toward rv (map fst (L i))))) js)), g')
           \<and> map (map fst) new =
               map (\<lambda>i. toward rv (fst (slide_ranks (toward rv (map fst (L i)))))) js"
  using assms
proof (induction js arbitrary: nb ts g)
  case Nil
  then show ?case by simp
next
  case (Cons i js)
  have li: "line b i = Inr (L i)" and len: "length (L i) \<le> BOARD_SIZE"
    using Cons.prems [of i] by simp_all
  have "length (toward rv (L i)) \<le> BOARD_SIZE" using len by (simp add: toward_def)
  from line_step [OF this, of g] obtain p g1 where
    p: "pad_values (fst (combine_values (toward rv (L i)))) g = Inr (p, g1)"
       "map fst p = fst (slide_ranks (map fst (toward rv (L i))))"
       "snd (combine_values (toward rv (L i))) = snd (slide_ranks (map fst (toward rv (L i))))"
    by blast
  have tw: "map fst (toward rv (L i)) = toward rv (map fst (L i))"
    by (simp add: toward_def rev_map)
  have "\<And>k. k \<in> set js \<Longrightarrow> line b k = Inr (L k) \<and> length (L k) \<le> BOARD_SIZE"
    using Cons.prems by simp
  from Cons.IH [OF this, of "nb @ [toward rv p]"
      "ts + snd (combine_values (toward rv (L i)))" g1]
  obtain new g' where
    n: "move_loop line rv b js (nb @ [toward rv p])
          (ts + snd (combine_values (toward rv (L i)))) g1 =
        Inr (((nb @ [toward rv p]) @ new,
             (ts + snd (combine_values (toward rv (L i)))) +
               sum_list (map (\<lambda>i. snd (slide_ranks (toward rv (map fst (L i))))) js)), g')"
       "map (map fst) new =
          map (\<lambda>i. toward rv (fst (slide_ranks (toward rv (map fst (L i)))))) js"
    by blast
  have step: "move_loop line rv b (i # js) nb ts g =
      move_loop line rv b js (nb @ [toward rv p])
          (ts + snd (combine_values (toward rv (L i)))) g1"
    using li p(1) by (cases rv) (simp_all add: toward_def reverse_def case_prod_unfold)
  have "map fst (toward rv p) = toward rv (fst (slide_ranks (toward rv (map fst (L i)))))"
    using p(2) tw by (cases rv) (simp_all add: toward_def rev_map [symmetric])
  then show ?case
    using step n p(3) tw
    by (intro exI [of _ "toward rv p # new"] exI [of _ g']) simp
qed

lemma map_nth_upt4: "length b = BOARD_SIZE \<Longrightarrow> map (\<lambda>i. f (b ! i)) [0..<BOARD_SIZE] = map f b"
  by (simp add: list_eq_iff_nth_eq)

lemma rows_loop:
  assumes "valid_board b"
  shows "\<exists>new g'. move_loop ith_row rv b [0..<BOARD_SIZE] [] 0 g =
             Inr ((new, snd (shift_rows rv (ranks b))), g')
           \<and> ranks new = fst (shift_rows rv (ranks b))"
proof -
  have "\<And>i. i \<in> set [0..<BOARD_SIZE] \<Longrightarrow> ith_row b i = Inr (b ! i) \<and> length (b ! i) \<le> BOARD_SIZE"
    using assms by (simp add: ith_row_valid valid_board_nth del: upt_Suc)
  from move_loop_ranks [of "[0..<BOARD_SIZE]" ith_row b "\<lambda>i. b ! i" rv "[]" 0 g, OF this]
  obtain new g' where
    n: "move_loop ith_row rv b [0..<BOARD_SIZE] [] 0 g =
          Inr (([] @ new, 0 + sum_list (map (\<lambda>i. snd (slide_ranks (toward rv (map fst (b ! i)))))
             [0..<BOARD_SIZE])), g')"
       "map (map fst) new =
          map (\<lambda>i. toward rv (fst (slide_ranks (toward rv (map fst (b ! i)))))) [0..<BOARD_SIZE]"
    by blast
  have len: "length b = BOARD_SIZE" using assms by (simp add: valid_board_def)
  have a: "map (\<lambda>i. snd (slide_ranks (toward rv (map fst (b ! i))))) [0..<BOARD_SIZE] =
        map (\<lambda>row. snd (slide_ranks (toward rv (map fst row)))) b"
    by (rule map_nth_upt4 [OF len])
  have c: "map (\<lambda>i. toward rv (fst (slide_ranks (toward rv (map fst (b ! i)))))) [0..<BOARD_SIZE] =
        map (\<lambda>row. toward rv (fst (slide_ranks (toward rv (map fst row))))) b"
    by (rule map_nth_upt4 [OF len])
  show ?thesis
    using n unfolding a c
    by (intro exI [of _ new] exI [of _ g']) (simp add: shift_rows_def ranks_def comp_def)
qed

lemma columns_loop:
  assumes "valid_board b"
  shows "\<exists>new g'. move_loop ith_column rv b [0..<BOARD_SIZE] [] 0 g =
             Inr ((new, snd (shift_rows rv (tr (ranks b)))), g')
           \<and> ranks new = fst (shift_rows rv (tr (ranks b)))"
proof -
  have vt: "valid_board (tr b)" using assms by (rule valid_board_tr)
  have "\<And>i. i \<in> set [0..<BOARD_SIZE] \<Longrightarrow>
          ith_column b i = Inr (tr b ! i) \<and> length (tr b ! i) \<le> BOARD_SIZE"
    using assms vt by (simp add: ith_column_valid valid_board_nth del: upt_Suc)
  from move_loop_ranks [of "[0..<BOARD_SIZE]" ith_column b "\<lambda>i. tr b ! i" rv "[]" 0 g, OF this]
  obtain new g' where
    n: "move_loop ith_column rv b [0..<BOARD_SIZE] [] 0 g =
          Inr (([] @ new, 0 + sum_list (map (\<lambda>i. snd (slide_ranks (toward rv (map fst (tr b ! i)))))
             [0..<BOARD_SIZE])), g')"
       "map (map fst) new =
          map (\<lambda>i. toward rv (fst (slide_ranks (toward rv (map fst (tr b ! i)))))) [0..<BOARD_SIZE]"
    by blast
  have len: "length (tr b) = BOARD_SIZE" using vt by (simp add: valid_board_def)
  have a: "map (\<lambda>i. snd (slide_ranks (toward rv (map fst (tr b ! i))))) [0..<BOARD_SIZE] =
        map (\<lambda>row. snd (slide_ranks (toward rv (map fst row)))) (tr b)"
    by (rule map_nth_upt4 [OF len])
  have c: "map (\<lambda>i. toward rv (fst (slide_ranks (toward rv (map fst (tr b ! i)))))) [0..<BOARD_SIZE] =
        map (\<lambda>row. toward rv (fst (slide_ranks (toward rv (map fst row))))) (tr b)"
    by (rule map_nth_upt4 [OF len])
  have rt: "tr (ranks b) = ranks (tr b)" using assms by (simp add: ranks_tr)
  show ?thesis
    using n unfolding a c rt
    by (intro exI [of _ new] exI [of _ g']) (simp add: shift_rows_def ranks_def comp_def)
qed

lemma shift_rows_valid:
  "valid_board R \<Longrightarrow> valid_board (fst (shift_rows rv R))"
  by (simp add: valid_board_def shift_rows_def toward_def slide_ranks_length)

lemma move_ranks_valid: "valid_board R \<Longrightarrow> valid_board (fst (move_ranks d R))"
  by (cases d) (simp_all add: shift_rows_valid valid_board_tr)

lemma move_raw_ranks:
  assumes "valid_board b"
  shows "\<exists>nb g'. move_raw b d g = Inr ((nb, snd (move_ranks d (ranks b))), g')
           \<and> ranks nb = fst (move_ranks d (ranks b)) \<and> valid_board nb"
proof -
  have vr: "valid_board (ranks b)" using assms by simp
  have rows: "\<And>rv. \<exists>nb g'. move_loop ith_row rv b [0..<BOARD_SIZE] [] 0 g =
             Inr ((nb, snd (shift_rows rv (ranks b))), g')
           \<and> ranks nb = fst (shift_rows rv (ranks b)) \<and> valid_board nb"
  proof -
    fix rv
    from rows_loop [OF assms, of rv g] obtain new g' where
      n: "move_loop ith_row rv b [0..<BOARD_SIZE] [] 0 g = Inr ((new, snd (shift_rows rv (ranks b))), g')"
         "ranks new = fst (shift_rows rv (ranks b))" by blast
    have "valid_board (ranks new)" unfolding n(2) using vr by (rule shift_rows_valid)
    then have "valid_board new" by simp
    then show "\<exists>nb g'. move_loop ith_row rv b [0..<BOARD_SIZE] [] 0 g =
             Inr ((nb, snd (shift_rows rv (ranks b))), g')
           \<and> ranks nb = fst (shift_rows rv (ranks b)) \<and> valid_board nb"
      using n by auto
  qed
  have cols: "\<And>rv. \<exists>nb g'. transposed (move_loop ith_column rv b [0..<BOARD_SIZE] [] 0) g =
             Inr ((nb, snd (shift_rows rv (tr (ranks b)))), g')
           \<and> ranks nb = tr (fst (shift_rows rv (tr (ranks b)))) \<and> valid_board nb"
  proof -
    fix rv
    from columns_loop [OF assms, of rv g] obtain new g' where
      n: "move_loop ith_column rv b [0..<BOARD_SIZE] [] 0 g =
            Inr ((new, snd (shift_rows rv (tr (ranks b)))), g')"
         "ranks new = fst (shift_rows rv (tr (ranks b)))" by blast
    have "valid_board (ranks new)" unfolding n(2)
      using vr by (intro shift_rows_valid valid_board_tr)
    then have vn: "valid_board new" by simp
    have "transposed (move_loop ith_column rv b [0..<BOARD_SIZE] [] 0) g =
            Inr ((tr new, snd (shift_rows rv (tr (ranks b)))), g')"
      using n(1) vn by (simp add: transposed_def transpose_board_valid)
    moreover have "ranks (tr new) = tr (fst (shift_rows rv (tr (ranks b))))"
      using ranks_tr [OF vn] n(2) by simp
    ultimately show "\<exists>nb g'. transposed (move_loop ith_column rv b [0..<BOARD_SIZE] [] 0) g =
             Inr ((nb, snd (shift_rows rv (tr (ranks b)))), g')
           \<and> ranks nb = tr (fst (shift_rows rv (tr (ranks b)))) \<and> valid_board nb"
      using valid_board_tr [OF vn] by blast
  qed
  show ?thesis
  proof (cases d)
    case UP
    then show ?thesis using cols [of False] by (simp add: move_up_def)
  next
    case DOWN
    then show ?thesis using cols [of True] by (simp add: move_down_def)
  next
    case LEFT
    then show ?thesis using rows [of False] by (simp add: move_left_def)
  next
    case RIGHT
    then show ?thesis using rows [of True] by (simp add: move_right_def)
  qed
qed

lemma just_values_eq:
  assumes "valid_board b" "valid_board nb"
  shows "just_values b = just_values nb \<longleftrightarrow> ranks b = ranks nb"
proof -
  have "concat (ranks b) = concat (ranks nb) \<longleftrightarrow> ranks b = ranks nb"
  proof (rule concat_eq_concat_iff)
    show "length (ranks b) = length (ranks nb)"
      using assms by (simp add: valid_board_def ranks_def)
    show "\<forall>(x, y)\<in>set (zip (ranks b) (ranks nb)). length x = length y"
    proof (clarify)
      fix x y assume "(x, y) \<in> set (zip (ranks b) (ranks nb))"
      then have "x \<in> set (ranks b)" "y \<in> set (ranks nb)"
        by (auto dest: set_zip_leftD set_zip_rightD)
      then show "length x = length y"
        using assms by (auto simp: valid_board_def ranks_def)
    qed
  qed
  then show ?thesis by (simp add: just_values_def ranks_def)
qed

text \<open>
  What \<open>move\<close> returns on a well-formed board, up to the keys it draws.
\<close>

lemma move_ranks_result:
  assumes "valid_board b"
  shows "\<exists>nb g'. move b d g =
             Inr ((if fst (move_ranks d (ranks b)) = ranks b then (None, 0)
                   else (Some nb, snd (move_ranks d (ranks b)))), g')
           \<and> ranks nb = fst (move_ranks d (ranks b)) \<and> valid_board nb"
proof -
  from move_raw_ranks [OF assms, of d g] obtain nb g' where
    n: "move_raw b d g = Inr ((nb, snd (move_ranks d (ranks b))), g')"
       "ranks nb = fst (move_ranks d (ranks b))" "valid_board nb" by blast
  have "just_values b = just_values nb \<longleftrightarrow> fst (move_ranks d (ranks b)) = ranks b"
    using just_values_eq [OF assms n(3)] n(2) by auto
  then show ?thesis using n by (auto simp: move_def)
qed

section \<open>Properties of move\<close>


lemma move_total:
  assumes "valid_board b"
  shows "\<exists>r g'. move b d g = Inr (r, g')"
  using move_ranks_result [OF assms, of d g] by blast

text \<open>
  Claim C8. \<^verbatim>\<open>pad_values\<close> raises \<^verbatim>\<open>ValueError\<close> on more than \<open>BOARD_SIZE\<close> values; the
  combine routine never returns more cells than its line has; and on a well-formed board
  \<open>move\<close> returns a result in every direction, so the error is not reachable through
  \<open>move\<close>.
\<close>

theorem pad_values_error_unreachable:
  "(length v > BOARD_SIZE \<longrightarrow> pad_values v g = Inl ValueError)
   \<and> length (fst (combine_values line)) \<le> length line
   \<and> (valid_board b \<longrightarrow> (\<exists>r g'. move b d g = Inr (r, g')))"
  using move_total [of b d g] by (simp add: pad_values_def combine_values_length)

theorem pad_values_error_unreachable_witness:
  "pad_values [(1, 1), (3, 2), (5, 3), (7, 4), (9, 5)] zero_rng = Inl ValueError
   \<and> length (fst (combine_values [(1, 1), (1, 2), (0, 3), (0, 4)])) \<le> 4
   \<and> valid_board sample_board
   \<and> (\<exists>r g'. move sample_board LEFT zero_rng = Inr (r, g'))"
  using pad_values_error_unreachable
    [of "[(1, 1), (3, 2), (5, 3), (7, 4), (9, 5)]" zero_rng "[(1, 1), (1, 2), (0, 3), (0, 4)]"
        sample_board LEFT]
    valid_sample_board
  by simp



lemma merge_ranks_score_nonneg:
  "\<forall>r\<in>set rs. 0 \<le> r \<Longrightarrow> 0 \<le> snd (merge_ranks rs)"
  by (induction rs rule: merge_ranks.induct) (auto split: prod.splits)

lemma slide_ranks_score_nonneg:
  "\<forall>r\<in>set rs. 0 \<le> r \<Longrightarrow> 0 \<le> snd (slide_ranks rs)"
  using merge_ranks_score_nonneg [of "filter (\<lambda>r. r \<noteq> 0) rs"]
  by (auto simp add: slide_ranks_def split: prod.splits)

lemma shift_rows_score_nonneg:
  "nonneg_grid R \<Longrightarrow> 0 \<le> snd (shift_rows rv R)"
  by (auto simp: shift_rows_def nonneg_grid_def toward_def intro!: sum_list_nonneg
      slide_ranks_score_nonneg split: if_splits)

lemma nonneg_grid_tr: "valid_board R \<Longrightarrow> nonneg_grid R \<Longrightarrow> nonneg_grid (tr R)"
  by (auto simp: nonneg_grid_def tr_def valid_board_def)

lemma move_ranks_score_nonneg:
  "valid_board R \<Longrightarrow> nonneg_grid R \<Longrightarrow> 0 \<le> snd (move_ranks d R)"
  by (cases d) (simp_all add: shift_rows_score_nonneg nonneg_grid_tr)

lemma ranks_nonneg_grid: "ranks_nonneg b = nonneg_grid (ranks b)"
  by (auto simp: ranks_nonneg_def nonneg_grid_def ranks_def)

text \<open>
  Claim C6. On a board of the data model (well formed, no negative rank), \<open>move\<close>
  returns in every direction, and the score it returns is not negative. The last section
  shows that \<open>move\<close> and \<^verbatim>\<open>with_random_tile\<close> keep both invariants.
\<close>

theorem move_score_nonneg:
  assumes "valid_board b" "ranks_nonneg b"
  shows "\<exists>nb s g'. move b d g = Inr ((nb, s), g') \<and> 0 \<le> s"
proof -
  have "0 \<le> snd (move_ranks d (ranks b))"
    using assms by (intro move_ranks_score_nonneg) (simp_all add: ranks_nonneg_grid)
  then show ?thesis using move_ranks_result [OF assms(1), of d g] by auto
qed

theorem move_score_nonneg_witness:
  "valid_board sample_board \<and> ranks_nonneg sample_board
   \<and> (\<exists>nb s g'. move sample_board LEFT zero_rng = Inr ((nb, s), g') \<and> 0 \<le> s)"
  using valid_sample_board nonneg_sample_board
    move_score_nonneg [OF valid_sample_board nonneg_sample_board, of LEFT zero_rng]
  by simp











section \<open>Spawning a tile\<close>

lemma empty_tiles_valid:
  assumes "valid_board b"
  shows "empty_tiles b = Inr (positions b)"
proof -
  have inner: "collect (\<lambda>j. case subscript b i of Inl e \<Rightarrow> Inl e
        | Inr row \<Rightarrow> (case subscript row j of Inl e \<Rightarrow> Inl e
            | Inr cell \<Rightarrow> Inr ((i, j), fst cell = 0))) [0..<BOARD_SIZE] =
      Inr (map (\<lambda>j. ((i, j), fst (b ! i ! j) = 0)) [0..<BOARD_SIZE])"
    if "i \<in> set [0..<BOARD_SIZE]" for i
    using assms that by (intro collect_map) (simp add: subscript_def valid_board_def)
  have "collect (\<lambda>i. collect (\<lambda>j. case subscript b i of Inl e \<Rightarrow> Inl e
        | Inr row \<Rightarrow> (case subscript row j of Inl e \<Rightarrow> Inl e
            | Inr cell \<Rightarrow> Inr ((i, j), fst cell = 0))) [0..<BOARD_SIZE]) [0..<BOARD_SIZE] =
      Inr (map (\<lambda>i. map (\<lambda>j. ((i, j), fst (b ! i ! j) = 0)) [0..<BOARD_SIZE]) [0..<BOARD_SIZE])"
    by (intro collect_map inner)
  then show ?thesis by (simp add: empty_tiles_def positions_def)
qed

lemma set_positions:
  "set (positions b) = {(i, j). i < BOARD_SIZE \<and> j < BOARD_SIZE \<and> fst (b ! i ! j) = 0}"
  unfolding positions_def by (auto simp del: upt_Suc) force

lemma distinct_positions: "distinct (positions b)"
proof -
  have "distinct (map fst (concat (map (\<lambda>i. map (\<lambda>j. ((i, j), fst (b ! i ! j) = 0))
        [0..<BOARD_SIZE]) [0..<BOARD_SIZE])))"
    by (simp add: upt_rec)
  then show ?thesis unfolding positions_def by (rule distinct_map_filter)
qed

lemma positions_empty_iff:
  assumes "valid_board b"
  shows "positions b = [] \<longleftrightarrow> no_empty_cell b"
proof -
  have "positions b = [] \<longleftrightarrow> set (positions b) = {}" by simp
  also have "\<dots> \<longleftrightarrow> (\<forall>i<BOARD_SIZE. \<forall>j<BOARD_SIZE. fst (b ! i ! j) \<noteq> 0)"
    unfolding set_positions by auto
  also have "\<dots> \<longleftrightarrow> no_empty_cell b"
    using assms
    by (auto simp: no_empty_cell_def list_all_length valid_board_def)
  finally show ?thesis .
qed

lemma insert_value_row_valid:
  assumes "length row = BOARD_SIZE" "get_random_key g = (k, g')"
  shows "insert_value_row row j v g = Inr (row[j := (v, k)], g')"
proof -
  have "collect (\<lambda>j'. if j = j' then Inr (v, k) else subscript row j') [0..<BOARD_SIZE] =
      Inr (map (\<lambda>j'. if j = j' then (v, k) else row ! j') [0..<BOARD_SIZE])"
    using assms(1) by (intro collect_map) (simp add: subscript_def)
  moreover have "map (\<lambda>j'. if j = j' then (v, k) else row ! j') [0..<BOARD_SIZE] = row[j := (v, k)]"
    using assms(1) by (auto simp: list_eq_iff_nth_eq)
  ultimately show ?thesis using assms(2) by (simp add: insert_value_row_def)
qed

lemma insert_value_valid:
  assumes "valid_board b" "i < BOARD_SIZE" "get_random_key g = (k, g')"
  shows "insert_value b i j v g = Inr (b[i := (b ! i)[j := (v, k)]], g')"
proof -
  have len: "length b = BOARD_SIZE" and rows: "\<And>n. n < BOARD_SIZE \<Longrightarrow> length (b ! n) = BOARD_SIZE"
    using assms(1) by (simp_all add: valid_board_def)
  have r: "\<And>n. n < BOARD_SIZE \<Longrightarrow> insert_value_row (b ! n) j v g = Inr ((b ! n)[j := (v, k)], g')"
    using rows assms(3) by (intro insert_value_row_valid) simp_all
  have b: "b = [b ! 0, b ! 1, b ! 2, b ! 3]"
    using len by (auto simp: list_eq_iff_nth_eq less_Suc_eq numeral_Bit0 numeral_Bit1)
  consider "i = 0" | "i = 1" | "i = 2" | "i = 3" using assms(2) by linarith
  then show ?thesis
  proof cases
    case 1
    then show ?thesis using len r [of 0]
      by (subst (2) b) (simp add: insert_value_def upt_rec subscript_def numeral_2_eq_2 numeral_3_eq_3)
  next
    case 2
    then show ?thesis using len r [of 1]
      by (subst (2) b) (simp add: insert_value_def upt_rec subscript_def numeral_2_eq_2 numeral_3_eq_3)
  next
    case 3
    then show ?thesis using len r [of 2]
      by (subst (2) b) (simp add: insert_value_def upt_rec subscript_def numeral_2_eq_2 numeral_3_eq_3)
  next
    case 4
    then show ?thesis using len r [of 3]
      by (subst (2) b) (simp add: insert_value_def upt_rec subscript_def numeral_2_eq_2 numeral_3_eq_3)
  qed
qed

lemma filter_update_length:
  "j < length xs \<Longrightarrow> \<not> P (xs ! j) \<Longrightarrow> P c \<Longrightarrow>
   length (filter P (xs[j := c])) = Suc (length (filter P xs))"
proof (induction xs arbitrary: j)
  case Nil
  then show ?case by simp
next
  case (Cons x xs)
  then show ?case by (cases j) auto
qed

lemma occupied_update:
  assumes "i < length b" "j < length (b ! i)" "fst (b ! i ! j) = 0" "v \<noteq> 0"
  shows "occupied (b[i := (b ! i)[j := (v, k)]]) = occupied b + 1"
proof -
  let ?P = "\<lambda>c::CELL. fst c \<noteq> 0"
  have row: "length (filter ?P ((b ! i)[j := (v, k)])) = Suc (length (filter ?P (b ! i)))"
    using assms by (intro filter_update_length) simp_all
  have "occupied (take i b @ (b ! i)[j := (v, k)] # drop (Suc i) b) =
        occupied (take i b @ b ! i # drop (Suc i) b) + 1"
    using row by (simp add: occupied_def)
  then show ?thesis
    using assms(1) by (simp add: upd_conv_take_nth_drop id_take_nth_drop [symmetric])
qed

lemma update_other_cells:
  assumes "i < length b" "(i', j') \<noteq> (i, j)"
  shows "b[i := (b ! i)[j := c]] ! i' ! j' = b ! i' ! j'"
  using assms by (cases "i' = i") auto

text \<open>
  \<^verbatim>\<open>with_random_tile\<close> on a well-formed board, in closed form: three draws, for the
  position, the rank and the key.
\<close>

lemma with_random_tile_result:
  assumes "valid_board b"
  shows "with_random_tile b g =
     (if positions b = [] then Inr (b, g)
      else Inr (b[fst (positions b ! (g 0 mod length (positions b))) :=
                   (b ! fst (positions b ! (g 0 mod length (positions b))))
                     [snd (positions b ! (g 0 mod length (positions b))) :=
                        (if real (g 1 mod 2 ^ 53) / 2 ^ 53 < 9 / 10 then 1 else 2,
                         int (g 2 mod 1000001))]],
                \<lambda>n. g (n + 3)))"
proof (cases "positions b = []")
  case True
  then show ?thesis using assms by (simp add: with_random_tile_def empty_tiles_valid)
next
  case False
  define p where "p = positions b ! (g 0 mod length (positions b))"
  have "p \<in> set (positions b)" using False by (simp add: p_def)
  then have i: "fst p < BOARD_SIZE" unfolding set_positions by auto
  have key: "get_random_key (\<lambda>n. g (Suc (Suc n))) = (int (g 2 mod 1000001), \<lambda>n. g (n + 3))"
    by (simp add: get_random_key_def randint_def randbelow_def next_raw_def numeral_2_eq_2
        numeral_3_eq_3)
  have "insert_value b (fst p) (snd p)
          (if real (g 1 mod 2 ^ 53) / 2 ^ 53 < 9 / 10 then 1 else 2) (\<lambda>n. g (Suc (Suc n))) =
        Inr (b[fst p := (b ! fst p)[snd p :=
               (if real (g 1 mod 2 ^ 53) / 2 ^ 53 < 9 / 10 then 1 else 2, int (g 2 mod 1000001))]],
             \<lambda>n. g (n + 3))"
    using assms i key by (rule insert_value_valid)
  then show ?thesis
    using False assms
    by (simp add: with_random_tile_def empty_tiles_valid random_choice_def randbelow_def
        next_raw_def random_random_def p_def [symmetric] case_prod_unfold)
qed

lemma valid_board_update:
  assumes "valid_board b"
  shows "valid_board (b[i := (b ! i)[j := c]])"
proof (cases "i < length b")
  case True
  then have "length ((b ! i)[j := c]) = BOARD_SIZE"
    using assms by (simp add: valid_board_def)
  then show ?thesis
    using assms set_update_subset_insert [of b i "(b ! i)[j := c]"]
    by (auto simp: valid_board_def)
next
  case False
  then have "b[i := (b ! i)[j := c]] = b" by (simp add: list_update_beyond)
  then show ?thesis using assms by simp
qed

lemma with_random_tile_valid:
  assumes "valid_board b"
  shows "\<exists>t g'. with_random_tile b g = Inr (t, g') \<and> valid_board t"
  using assms by (simp add: with_random_tile_result valid_board_update)

text \<open>
  Claim C5. On a well-formed board, \<^verbatim>\<open>with_random_tile\<close> lists the empty cells, each
  once. With no empty cell it returns the board and leaves the generator alone. Otherwise it
  makes three draws: the first, reduced below the number of empty cells, picks the cell
  \<open>(i, j)\<close>, so that a uniform draw picks every empty cell with the same probability;
  the second is \<^verbatim>\<open>random()\<close>, and the new rank is 1 when it is below \<open>9/10\<close> and 2
  otherwise; the third is the fresh key. The result has one more occupied cell, the chosen
  cell was empty, and every other cell keeps its rank and its key.
\<close>

theorem with_random_tile_spawns:
  assumes "valid_board b"
  shows "\<exists>tiles. empty_tiles b = Inr tiles \<and> distinct tiles
     \<and> set tiles = {(i, j). i < BOARD_SIZE \<and> j < BOARD_SIZE \<and> fst (b ! i ! j) = 0}
     \<and> (tiles = [] \<longleftrightarrow> no_empty_cell b)
     \<and> (if tiles = [] then with_random_tile b g = Inr (b, g)
        else \<exists>i j v k. (i, j) = tiles ! (g 0 mod length tiles)
             \<and> v = (if real (g 1 mod 2 ^ 53) / 2 ^ 53 < 9 / 10 then 1 else 2)
             \<and> k = int (g 2 mod 1000001)
             \<and> with_random_tile b g = Inr (b[i := (b ! i)[j := (v, k)]], \<lambda>n. g (n + 3))
             \<and> fst (b ! i ! j) = 0
             \<and> occupied (b[i := (b ! i)[j := (v, k)]]) = occupied b + 1
             \<and> (\<forall>i' j'. (i', j') \<noteq> (i, j) \<longrightarrow>
                   b[i := (b ! i)[j := (v, k)]] ! i' ! j' = b ! i' ! j'))"
proof -
  have spawn: "\<exists>i j v k. (i, j) = positions b ! (g 0 mod length (positions b))
             \<and> v = (if real (g 1 mod 2 ^ 53) / 2 ^ 53 < 9 / 10 then 1 else 2)
             \<and> k = int (g 2 mod 1000001)
             \<and> with_random_tile b g = Inr (b[i := (b ! i)[j := (v, k)]], \<lambda>n. g (n + 3))
             \<and> fst (b ! i ! j) = 0
             \<and> occupied (b[i := (b ! i)[j := (v, k)]]) = occupied b + 1
             \<and> (\<forall>i' j'. (i', j') \<noteq> (i, j) \<longrightarrow>
                   b[i := (b ! i)[j := (v, k)]] ! i' ! j' = b ! i' ! j')"
    if ne: "positions b \<noteq> []"
  proof -
    obtain i j where p: "positions b ! (g 0 mod length (positions b)) = (i, j)"
      by (cases "positions b ! (g 0 mod length (positions b))")
    define v :: int where "v = (if real (g 1 mod 2 ^ 53) / 2 ^ 53 < 9 / 10 then 1 else 2)"
    define k where "k = int (g 2 mod 1000001)"
    have "(i, j) \<in> set (positions b)" using ne p by (metis length_greater_0_conv mod_less_divisor nth_mem)
    then have ij: "i < BOARD_SIZE" "j < BOARD_SIZE" "fst (b ! i ! j) = 0"
      unfolding set_positions by auto
    have li: "i < length b" and lj: "j < length (b ! i)"
      using assms ij by (simp_all add: valid_board_def)
    have v0: "v \<noteq> 0" by (simp add: v_def)
    have w: "with_random_tile b g = Inr (b[i := (b ! i)[j := (v, k)]], \<lambda>n. g (n + 3))"
      using ne p by (simp add: with_random_tile_result [OF assms] v_def k_def)
    have o: "occupied (b[i := (b ! i)[j := (v, k)]]) = occupied b + 1"
      using li lj ij(3) v0 by (rule occupied_update)
    have u: "\<forall>i' j'. (i', j') \<noteq> (i, j) \<longrightarrow>
                   b[i := (b ! i)[j := (v, k)]] ! i' ! j' = b ! i' ! j'"
      using update_other_cells [OF li] by blast
    show ?thesis
      using p v_def k_def w ij(3) o u
      by (intro exI [of _ i] exI [of _ j] exI [of _ v] exI [of _ k]) simp
  qed
  have none: "with_random_tile b g = Inr (b, g)" if "positions b = []"
    using that by (simp add: with_random_tile_result [OF assms])
  show ?thesis
    using empty_tiles_valid [OF assms] distinct_positions [of b] set_positions [of b]
      positions_empty_iff [OF assms] spawn none
    by (intro exI [of _ "positions b"]) (simp del: One_nat_def)
qed

theorem with_random_tile_spawns_witness:
  "valid_board sample_board
   \<and> (\<exists>tiles. empty_tiles sample_board = Inr tiles \<and> distinct tiles
     \<and> set tiles = {(i, j). i < BOARD_SIZE \<and> j < BOARD_SIZE \<and> fst (sample_board ! i ! j) = 0}
     \<and> (tiles = [] \<longleftrightarrow> no_empty_cell sample_board)
     \<and> (if tiles = [] then with_random_tile sample_board zero_rng = Inr (sample_board, zero_rng)
        else \<exists>i j v k. (i, j) = tiles ! (zero_rng 0 mod length tiles)
             \<and> v = (if real (zero_rng 1 mod 2 ^ 53) / 2 ^ 53 < 9 / 10 then 1 else 2)
             \<and> k = int (zero_rng 2 mod 1000001)
             \<and> with_random_tile sample_board zero_rng =
                 Inr (sample_board[i := (sample_board ! i)[j := (v, k)]], \<lambda>n. zero_rng (n + 3))
             \<and> fst (sample_board ! i ! j) = 0
             \<and> occupied (sample_board[i := (sample_board ! i)[j := (v, k)]]) =
                 occupied sample_board + 1
             \<and> (\<forall>i' j'. (i', j') \<noteq> (i, j) \<longrightarrow>
                   sample_board[i := (sample_board ! i)[j := (v, k)]] ! i' ! j' =
                   sample_board ! i' ! j')))"
  using valid_sample_board
    with_random_tile_spawns [OF valid_sample_board, of zero_rng]
  by (rule conjI)

section \<open>The search\<close>

lemma best_move_unfold:
  "best_move b depth breadth = best_move_body (search_below depth breadth) breadth b"
  by (cases "nat depth") (simp_all add: best_move_def search_below_def)

lemma search_below_nonpos: "depth \<le> 0 \<Longrightarrow> search_below depth breadth = None"
  by (simp add: search_below_def)

lemma search_below_pos:
  assumes "0 < depth"
  shows "search_below depth breadth = Some (\<lambda>t. best_move t (depth - 1) breadth)"
proof -
  have n: "nat depth = Suc (nat (depth - 1))" using assms by simp
  have "(\<lambda>t. best_move t (depth - 1) breadth) = best_move_at (nat (depth - 1)) breadth"
    by (simp add: best_move_def fun_eq_iff)
  then show ?thesis by (simp add: search_below_def n)
qed

text \<open>
  The loop of \<^verbatim>\<open>best_move\<close> folds \<open>better\<close> over the candidates.
\<close>

lemma direction_loop_candidates:
  "direction_loop rec breadth b ds bd bs g =
     (case candidates rec breadth b ds g of
        Inl e \<Rightarrow> Inl e
      | Inr (cs, g') \<Rightarrow> Inr (foldl better (bd, bs) cs, g'))"
  by (induction ds arbitrary: bd bs g) (auto split: sum.splits prod.splits option.splits)

lemma foldl_better:
  "foldl better a cs =
     (case first_greatest cs of None \<Rightarrow> a | Some m \<Rightarrow> if snd m > snd a then m else a)"
proof (induction cs arbitrary: a)
  case Nil
  then show ?case by simp
next
  case (Cons c cs)
  obtain bd bs where a: "a = (bd, bs)" by (cases a)
  obtain d s where c: "c = (d, s)" by (cases c)
  show ?case
    unfolding a c using Cons.IH [of "better (bd, bs) (d, s)"]
    by (auto split: option.splits)
qed

lemma first_greatest_None: "first_greatest cs = None \<longleftrightarrow> cs = []"
  by (cases cs) (auto split: option.splits)

text \<open>
  \<open>first_greatest\<close> is the first element that carries the greatest total.
\<close>

lemma first_greatest_first_maximum:
  "first_greatest cs = Some m \<Longrightarrow>
     \<exists>i<length cs. cs ! i = m \<and> (\<forall>c\<in>set cs. snd c \<le> snd m) \<and> (\<forall>j<i. snd (cs ! j) < snd m)"
proof (induction cs arbitrary: m)
  case Nil
  then show ?case by simp
next
  case (Cons c cs)
  show ?case
  proof (cases "first_greatest cs")
    case None
    then have "cs = []" by (simp add: first_greatest_None)
    then show ?thesis using Cons.prems by auto
  next
    case (Some m')
    from Cons.IH [OF Some] obtain i where
      i: "i < length cs" "cs ! i = m'" "\<forall>c\<in>set cs. snd c \<le> snd m'"
         "\<forall>j<i. snd (cs ! j) < snd m'"
      by blast
    show ?thesis
    proof (cases "snd m' > snd c")
      case True
      then have m: "m = m'" using Cons.prems Some by simp
      have "\<forall>j<Suc i. snd ((c # cs) ! j) < snd m'"
        using i(4) True by (auto simp: less_Suc_eq_0_disj)
      then show ?thesis
        using i True unfolding m
        by (intro exI [of _ "Suc i"]) auto
    next
      case False
      then have m: "m = c" using Cons.prems Some by simp
      show ?thesis
        using i(3) False unfolding m
        by (intro exI [of _ 0]) auto
    qed
  qed
qed

lemma foldl_better_lower: "snd a \<le> snd (foldl better a cs)"
  by (simp add: foldl_better split: option.splits)

lemma foldl_better_keep: "\<forall>c\<in>set cs. snd c \<le> snd a \<Longrightarrow> foldl better a cs = a"
proof (cases "first_greatest cs")
  case None
  then show ?thesis by (simp add: foldl_better)
next
  case (Some m)
  assume "\<forall>c\<in>set cs. snd c \<le> snd a"
  moreover from first_greatest_first_maximum [OF Some] have "m \<in> set cs" by auto
  ultimately have "snd m \<le> snd a" by blast
  then show ?thesis using Some by (simp add: foldl_better)
qed

lemma foldl_better_greatest:
  assumes "\<exists>c\<in>set cs. snd a < snd c"
  shows "first_greatest cs = Some (foldl better a cs)"
proof (cases "first_greatest cs")
  case None
  then show ?thesis using assms by (simp add: first_greatest_None)
next
  case (Some m)
  from first_greatest_first_maximum [OF Some] have "\<forall>c\<in>set cs. snd c \<le> snd m" by auto
  with assms have "snd a < snd m" by force
  then show ?thesis using Some by (simp add: foldl_better)
qed

lemma is_game_over_valid:
  assumes "valid_board b"
  shows "\<exists>g'. is_game_over b g = Inr (False, g')"
proof -
  from move_total [OF assms, of UP g] obtain r g' where "move b UP g = Inr (r, g')" by blast
  then show ?thesis by (simp add: is_game_over_def Directions_def tuple_is_None_def)
qed

text \<open>
  \<^verbatim>\<open>is_game_over\<close> never returns \<^verbatim>\<open>True\<close>: it compares the pair that \<open>move\<close>
  returns, not its first component, with \<^verbatim>\<open>None\<close>.
\<close>

lemma is_game_over_never_True: "is_game_over b g \<noteq> Inr (True, g')"
  by (simp add: is_game_over_def Directions_def tuple_is_None_def split: sum.splits prod.splits)

lemma sample_sum_total:
  assumes "\<And>t g. valid_board t \<Longrightarrow> \<exists>x g'. r t g = Inr (x, g')" "valid_board nb"
  shows "\<exists>s g'. sample_sum r nb n g = Inr (s, g')"
proof (induction n arbitrary: g)
  case 0
  then show ?case by simp
next
  case (Suc n)
  from with_random_tile_valid [OF assms(2), of g] obtain t g1 where
    t: "with_random_tile nb g = Inr (t, g1)" "valid_board t" by blast
  from assms(1) [OF t(2), of g1] obtain d s g2 where r: "r t g1 = Inr ((d, s), g2)"
    by (metis surj_pair)
  from Suc [of g2] obtain s' g3 where "sample_sum r nb n g2 = Inr (s', g3)" by blast
  then show ?case using t(1) r by simp
qed

text \<open>
  The sum in \<^verbatim>\<open>best_move\<close> is the sum of the listed estimates, so that the value added
  to a move's score is their sum floor-divided by \<open>breadth\<close>.
\<close>

lemma sample_sum_estimates:
  "sample_sum r nb n g =
     (case sample_estimates r nb n g of
        Inl e \<Rightarrow> Inl e
      | Inr (xs, g') \<Rightarrow> Inr (sum_list xs, g'))"
  by (induction n arbitrary: g) (auto split: sum.splits prod.splits)

lemma sample_estimates_length:
  "sample_estimates r nb n g = Inr (xs, g') \<Longrightarrow> length xs = n"
  by (induction n arbitrary: g xs) (auto split: sum.splits prod.splits)

lemma additional_score_total:
  assumes "returns_on_valid rec"
    and "valid_board nb" "breadth \<noteq> 0"
  shows "\<exists>a g'. additional_score rec breadth nb g = Inr (a, g')
           \<and> (case rec of
                None \<Rightarrow> a = 0
              | Some r \<Rightarrow>
                  (\<exists>xs g3. sample_estimates r nb (nat breadth) g = Inr (xs, g3)
                     \<and> length xs = nat breadth \<and> a = sum_list xs div breadth))"
proof (cases rec)
  case None
  then show ?thesis by (simp add: additional_score_def)
next
  case (Some r)
  have "\<And>t g. valid_board t \<Longrightarrow> \<exists>x g'. r t g = Inr (x, g')"
    using assms(1) Some by (simp add: returns_on_valid_def)
  from sample_sum_total [where r = r and nb = nb and n = "nat breadth" and g = g, OF this assms(2)]
  obtain s g' where t: "sample_sum r nb (nat breadth) g = Inr (s, g')" by blast
  then obtain xs where
    x: "sample_estimates r nb (nat breadth) g = Inr (xs, g')" "s = sum_list xs"
    by (auto simp: sample_sum_estimates split: sum.splits prod.splits)
  have "length xs = nat breadth" using x(1) by (rule sample_estimates_length)
  then show ?thesis using Some assms(3) t x by (simp add: additional_score_def)
qed

lemma candidates_total:
  assumes "returns_on_valid rec"
    and "valid_board b" "breadth \<noteq> 0"
  shows "\<exists>cs g'. candidates rec breadth b ds g = Inr (cs, g')
           \<and> map fst cs = filter (\<lambda>d. fst (move_ranks d (ranks b)) \<noteq> ranks b) ds
           \<and> (rec = None \<longrightarrow> (\<forall>c\<in>set cs. snd c = snd (move_ranks (fst c) (ranks b))))
           \<and> (\<forall>c\<in>set cs. total_of rec breadth b c)"
proof (induction ds arbitrary: g)
  case Nil
  then show ?case by simp
next
  case (Cons d ds)
  from move_ranks_result [OF assms(2), of d g] obtain nb g1 where
    m: "move b d g =
          Inr ((if fst (move_ranks d (ranks b)) = ranks b then (None, 0)
                else (Some nb, snd (move_ranks d (ranks b)))), g1)"
       "valid_board nb" by blast
  show ?case
  proof (cases "fst (move_ranks d (ranks b)) = ranks b")
    case True
    then show ?thesis using m(1) Cons [of g1] by simp
  next
    case False
    from additional_score_total [OF assms(1) m(2) assms(3), of g1]
    obtain a g2 where
      a: "additional_score rec breadth nb g1 = Inr (a, g2)"
         "case rec of
            None \<Rightarrow> a = 0
          | Some r \<Rightarrow>
              (\<exists>xs g3. sample_estimates r nb (nat breadth) g1 = Inr (xs, g3)
                 \<and> length xs = nat breadth \<and> a = sum_list xs div breadth)"
      by blast
    from Cons [of g2] obtain cs g3 where
      c: "candidates rec breadth b ds g2 = Inr (cs, g3)"
         "map fst cs = filter (\<lambda>d. fst (move_ranks d (ranks b)) \<noteq> ranks b) ds"
         "rec = None \<longrightarrow> (\<forall>c\<in>set cs. snd c = snd (move_ranks (fst c) (ranks b)))"
         "\<forall>c\<in>set cs. total_of rec breadth b c"
      by blast
    have mv: "move b d g = Inr ((Some nb, snd (move_ranks d (ranks b))), g1)"
      using False m(1) by simp
    have t: "total_of rec breadth b (d, snd (move_ranks d (ranks b)) + a)"
      unfolding total_of_def using mv a(2)
      by (intro exI [of _ nb] exI [of _ "snd (move_ranks d (ranks b))"] exI [of _ g]
          exI [of _ g1]) (auto split: option.splits)
    have z: "rec = None \<longrightarrow> a = 0" using a(2) by (auto split: option.splits)
    show ?thesis using False mv a(1) c t z by simp
  qed
qed

lemma best_move_body_result:
  assumes "returns_on_valid rec"
    and "valid_board b" "breadth \<noteq> 0"
  shows "\<exists>g1 cs g'. is_game_over b g = Inr (False, g1)
           \<and> candidates rec breadth b Directions g1 = Inr (cs, g')
           \<and> best_move_body rec breadth b g = Inr (foldl better (UP, - 1) cs, g')
           \<and> map fst cs = filter (\<lambda>d. fst (move_ranks d (ranks b)) \<noteq> ranks b) Directions
           \<and> (rec = None \<longrightarrow> (\<forall>c\<in>set cs. snd c = snd (move_ranks (fst c) (ranks b))))
           \<and> (\<forall>c\<in>set cs. total_of rec breadth b c)"
proof -
  from is_game_over_valid [OF assms(2), of g] obtain g1 where
    o: "is_game_over b g = Inr (False, g1)" by blast
  from candidates_total [OF assms, of Directions g1]
  obtain cs g' where
    c: "candidates rec breadth b Directions g1 = Inr (cs, g')"
       "map fst cs = filter (\<lambda>d. fst (move_ranks d (ranks b)) \<noteq> ranks b) Directions"
       "rec = None \<longrightarrow> (\<forall>c\<in>set cs. snd c = snd (move_ranks (fst c) (ranks b)))"
       "\<forall>c\<in>set cs. total_of rec breadth b c"
    by blast
  have "best_move_body rec breadth b g = Inr (foldl better (UP, - 1) cs, g')"
    using o c(1) by (simp add: best_move_body_def direction_loop_candidates)
  then show ?thesis using o c by blast
qed

lemma best_move_at_total:
  assumes "breadth \<noteq> 0"
  shows "valid_board b \<Longrightarrow> \<exists>x g'. best_move_at n breadth b g = Inr (x, g')"
proof (induction n arbitrary: b g)
  case 0
  have "returns_on_valid None" by (simp add: returns_on_valid_def)
  from best_move_body_result [OF this 0 assms, of g] show ?case by auto
next
  case (Suc n)
  have "returns_on_valid (Some (best_move_at n breadth))"
    using Suc.IH by (simp add: returns_on_valid_def)
  from best_move_body_result [OF this Suc.prems assms, of g] show ?case by auto
qed

lemma best_move_result:
  assumes "valid_board b" "breadth \<noteq> 0"
  shows "\<exists>cs g'. best_move_candidates b depth breadth g = Inr (cs, g')
           \<and> best_move b depth breadth g = Inr (foldl better (UP, - 1) cs, g')
           \<and> map fst cs = filter (\<lambda>d. fst (move_ranks d (ranks b)) \<noteq> ranks b) Directions
           \<and> (depth \<le> 0 \<longrightarrow> (\<forall>c\<in>set cs. snd c = snd (move_ranks (fst c) (ranks b))))
           \<and> (\<forall>c\<in>set cs. total_of (search_below depth breadth) breadth b c)"
proof -
  have rec: "returns_on_valid (search_below depth breadth)"
    using best_move_at_total [OF assms(2)]
    by (auto simp: returns_on_valid_def search_below_def split: nat.splits)
  have "depth \<le> 0 \<Longrightarrow> search_below depth breadth = None"
    by (simp add: search_below_def)
  with best_move_body_result [OF rec assms, of g]
  show ?thesis
    by (auto simp: best_move_unfold best_move_candidates_def)
qed

section \<open>Evaluation at concrete boards\<close>

text \<open>
  Unfoldings of the recursions on a count, for evaluation at a numeral.
\<close>

lemma fresh_zeros_unfold:
  "fresh_zeros n g =
     (if n = 0 then ([], g)
      else case get_random_key g of (k, g1) \<Rightarrow>
        (case fresh_zeros (n - 1) g1 of (cs, g2) \<Rightarrow> ((0, k) # cs, g2)))"
  by (cases n) simp_all

lemma sample_sum_unfold:
  "sample_sum rec nb n g =
     (if n = 0 then Inr (0, g)
      else case with_random_tile nb g of
        Inl e \<Rightarrow> Inl e
      | Inr (t, g1) \<Rightarrow>
          (case rec t g1 of
             Inl e \<Rightarrow> Inl e
           | Inr ((d, s), g2) \<Rightarrow>
               (case sample_sum rec nb (n - 1) g2 of
                  Inl e \<Rightarrow> Inl e
                | Inr (others, g3) \<Rightarrow> Inr (s + others, g3))))"
  by (cases n) (auto split: sum.splits prod.splits)

lemma sample_estimates_unfold:
  "sample_estimates rec nb n g =
     (if n = 0 then Inr ([], g)
      else case with_random_tile nb g of
        Inl e \<Rightarrow> Inl e
      | Inr (t, g1) \<Rightarrow>
          (case rec t g1 of
             Inl e \<Rightarrow> Inl e
           | Inr ((d, s), g2) \<Rightarrow>
               (case sample_estimates rec nb (n - 1) g2 of
                  Inl e \<Rightarrow> Inl e
                | Inr (xs, g3) \<Rightarrow> Inr (s # xs, g3))))"
  by (cases n) (auto split: sum.splits prod.splits)

lemmas board_eval = move_def move_up_def move_down_def move_left_def move_right_def transposed_def
  transpose_board_def ith_column_def ith_row_def subscript_def combine_values_def reverse_def
  pad_values_def get_random_key_def randint_def randbelow_def next_raw_def just_values_def
  combine_loop.simps upt_rec zero_rng_def fresh_zeros_unfold

lemmas search_eval = best_move_unfold best_move_body_def best_move_candidates_def search_below_def
  is_game_over_def Directions_def tuple_is_None_def additional_score_def with_random_tile_def
  empty_tiles_def random_choice_def random_random_def insert_value_def insert_value_row_def
  sample_sum_unfold sample_estimates_unfold

lemma returns_None_move:
  assumes "valid_board b"
  shows "returns_None (move b d g) \<longleftrightarrow> fst (move_ranks d (ranks b)) = ranks b"
  using move_ranks_result [OF assms, of d g] by (auto simp: returns_None_def split: if_splits)

lemma valid_corner_board: "valid_board corner_board"
  by (simp add: valid_board_def corner_board_def)

lemma corner_candidates:
  "best_move_candidates corner_board 1 1 zero_rng = Inr ([(DOWN, - 1), (RIGHT, - 1)], zero_rng)"
  by (simp add: corner_board_def search_eval board_eval)

lemma corner_best_move: "best_move corner_board 1 1 zero_rng = Inr ((UP, - 1), zero_rng)"
  by (simp add: corner_board_def search_eval board_eval)

lemma corner_up: "returns_None (move corner_board UP zero_rng)"
  by (simp add: corner_board_def returns_None_def board_eval)

lemma sample_candidates:
  "best_move_candidates sample_board 0 1 zero_rng =
     Inr ([(UP, 0), (DOWN, 0), (LEFT, 20), (RIGHT, 20)], zero_rng)"
  by (simp add: sample_board_def search_eval board_eval)

lemma sample_candidates_deep:
  "best_move_candidates sample_board 1 2 zero_rng =
     Inr ([(UP, 9), (DOWN, 23), (LEFT, 23), (RIGHT, 23)], zero_rng)"
  by (simp add: sample_board_def search_eval board_eval)

lemma sample_move_left:
  "move sample_board LEFT zero_rng =
     Inr ((Some [[(2, 2), (0, 0), (0, 0), (0, 0)],
                 [(5, 6), (2, 8), (0, 0), (0, 0)],
                 [(0, 0), (0, 0), (0, 0), (0, 0)],
                 [(5, 13), (7, 16), (0, 0), (0, 0)]], 20), zero_rng)"
  by (simp add: sample_board_def board_eval)

lemma sample_left_estimates:
  "sample_estimates (\<lambda>t. best_move t 0 2)
     [[(2, 2), (0, 0), (0, 0), (0, 0)],
      [(5, 6), (2, 8), (0, 0), (0, 0)],
      [(0, 0), (0, 0), (0, 0), (0, 0)],
      [(5, 13), (7, 16), (0, 0), (0, 0)]] 2 zero_rng = Inr ([3, 3], zero_rng)"
  by (simp add: search_eval board_eval)

section \<open>Properties of best_move and is_game_over\<close>

text \<open>
  Claim C1, amended. On a well-formed board, with \<open>breadth \<ge> 1\<close> and any \<open>depth\<close>,
  \<^verbatim>\<open>best_move\<close> returns, and its candidates are the directions whose move does not
  return \<^verbatim>\<open>None\<close>, in the order Up, Down, Left, Right. The total of every candidate is
  the score \<open>s\<close> of its move when \<open>depth \<le> 0\<close>, and otherwise \<open>s\<close> plus the floor of
  the average of \<open>breadth\<close> estimates, each the score that
  \<^verbatim>\<open>best_move(depth - 1, breadth)\<close> returns on the board after the move with a tile
  spawned: \<open>s + sum_list xs div breadth\<close>. If some candidate's total is greater than
  \<open>-1\<close>, \<^verbatim>\<open>best_move\<close> returns the candidate with the greatest total, the first one
  among equals. For \<open>depth \<le> 0\<close> and ranks that are not negative every total is at least
  0, so that the condition holds as soon as there is a candidate.
\<close>

theorem best_move_selects_greatest:
  assumes "valid_board b" "1 \<le> breadth"
  shows "\<exists>cs g'. best_move_candidates b depth breadth g = Inr (cs, g')
      \<and> map fst cs = filter (\<lambda>d. \<not> returns_None (move b d g)) Directions
      \<and> (\<forall>c\<in>set cs. \<exists>nb s g1 g2. move b (fst c) g1 = Inr ((Some nb, s), g2)
            \<and> (if depth \<le> 0 then snd c = s
               else \<exists>xs g3.
                      sample_estimates (\<lambda>t. best_move t (depth - 1) breadth) nb (nat breadth) g2 =
                        Inr (xs, g3)
                    \<and> length xs = nat breadth \<and> snd c = s + sum_list xs div breadth))
      \<and> (depth \<le> 0 \<and> ranks_nonneg b \<longrightarrow> (\<forall>c\<in>set cs. 0 \<le> snd c))
      \<and> ((\<exists>c\<in>set cs. - 1 < snd c) \<longrightarrow>
           (\<exists>d s. best_move b depth breadth g = Inr ((d, s), g')
              \<and> first_greatest cs = Some (d, s)))"
proof -
  have "breadth \<noteq> 0" using assms(2) by simp
  from best_move_result [OF assms(1) this, of depth g] obtain cs g' where
    r: "best_move_candidates b depth breadth g = Inr (cs, g')"
       "best_move b depth breadth g = Inr (foldl better (UP, - 1) cs, g')"
       "map fst cs = filter (\<lambda>d. fst (move_ranks d (ranks b)) \<noteq> ranks b) Directions"
       "depth \<le> 0 \<longrightarrow> (\<forall>c\<in>set cs. snd c = snd (move_ranks (fst c) (ranks b)))"
       "\<forall>c\<in>set cs. total_of (search_below depth breadth) breadth b c"
    by blast
  have f: "map fst cs = filter (\<lambda>d. \<not> returns_None (move b d g)) Directions"
    using r(3) by (simp add: returns_None_move [OF assms(1)])
  have t: "\<forall>c\<in>set cs. \<exists>nb s g1 g2. move b (fst c) g1 = Inr ((Some nb, s), g2)
            \<and> (if depth \<le> 0 then snd c = s
               else \<exists>xs g3.
                      sample_estimates (\<lambda>t. best_move t (depth - 1) breadth) nb (nat breadth) g2 =
                        Inr (xs, g3)
                    \<and> length xs = nat breadth \<and> snd c = s + sum_list xs div breadth)"
  proof (cases "depth \<le> 0")
    case True
    then show ?thesis
      using r(5) by (simp add: total_of_def search_below_nonpos)
  next
    case False
    then have "search_below depth breadth = Some (\<lambda>t. best_move t (depth - 1) breadth)"
      by (intro search_below_pos) simp
    then show ?thesis
      using r(5) False by (simp add: total_of_def)
  qed
  have n: "\<forall>c\<in>set cs. 0 \<le> snd c" if "depth \<le> 0" "ranks_nonneg b"
  proof
    fix c assume "c \<in> set cs"
    then have "snd c = snd (move_ranks (fst c) (ranks b))" using r(4) that(1) by blast
    moreover have "0 \<le> snd (move_ranks (fst c) (ranks b))"
      using assms(1) that(2) by (intro move_ranks_score_nonneg) (simp_all add: ranks_nonneg_grid)
    ultimately show "0 \<le> snd c" by simp
  qed
  have s: "\<exists>d s. best_move b depth breadth g = Inr ((d, s), g')
              \<and> first_greatest cs = Some (d, s)"
    if "\<exists>c\<in>set cs. - 1 < snd c"
  proof -
    from that have "\<exists>c\<in>set cs. snd (UP, - 1 :: int) < snd c" by simp
    from foldl_better_greatest [OF this]
    have "first_greatest cs = Some (foldl better (UP, - 1) cs)" .
    then show ?thesis using r(2) by (cases "foldl better (UP, - 1) cs") auto
  qed
  show ?thesis using r(1) f t n s by blast
qed

text \<open>
  Two instances. At depth 1 and breadth 2 the totals are 9, 23, 23 and 23; the total of
  Left is the score 20 of the move plus the average 3 of the two estimates 3 and 3 (their
  sum is 6); Down, Left and Right tie and Down is returned. At depth 0 Left and Right
  both total 20, and Left is returned.
\<close>

theorem best_move_selects_greatest_witness:
  "valid_board sample_board \<and> (1 :: int) \<le> 2
   \<and> best_move_candidates sample_board 1 2 zero_rng =
       Inr ([(UP, 9), (DOWN, 23), (LEFT, 23), (RIGHT, 23)], zero_rng)
   \<and> move sample_board LEFT zero_rng =
       Inr ((Some [[(2, 2), (0, 0), (0, 0), (0, 0)],
                   [(5, 6), (2, 8), (0, 0), (0, 0)],
                   [(0, 0), (0, 0), (0, 0), (0, 0)],
                   [(5, 13), (7, 16), (0, 0), (0, 0)]], 20), zero_rng)
   \<and> sample_estimates (\<lambda>t. best_move t (1 - 1) 2)
         [[(2, 2), (0, 0), (0, 0), (0, 0)],
          [(5, 6), (2, 8), (0, 0), (0, 0)],
          [(0, 0), (0, 0), (0, 0), (0, 0)],
          [(5, 13), (7, 16), (0, 0), (0, 0)]] (nat 2) zero_rng = Inr ([3, 3], zero_rng)
   \<and> (23 :: int) = 20 + sum_list [3, 3] div 2
   \<and> (\<exists>c\<in>set [(UP, 9), (DOWN, 23), (LEFT, 23), (RIGHT, 23 :: int)]. - 1 < snd c)
   \<and> first_greatest [(UP, 9), (DOWN, 23), (LEFT, 23), (RIGHT, 23)] = Some (DOWN, 23)
   \<and> best_move sample_board 1 2 zero_rng = Inr ((DOWN, 23), zero_rng)
   \<and> best_move_candidates sample_board 0 1 zero_rng =
       Inr ([(UP, 0), (DOWN, 0), (LEFT, 20), (RIGHT, 20)], zero_rng)
   \<and> first_greatest [(UP, 0), (DOWN, 0), (LEFT, 20), (RIGHT, 20)] = Some (LEFT, 20)
   \<and> best_move sample_board 0 1 zero_rng = Inr ((LEFT, 20), zero_rng)"
proof -
  have b2: "(1 :: int) \<le> 2" and b1: "(1 :: int) \<le> 1" by simp_all
  from best_move_selects_greatest [OF valid_sample_board b2, of 1 zero_rng]
  obtain cs g' where
    c: "best_move_candidates sample_board 1 2 zero_rng = Inr (cs, g')"
       "(\<exists>c\<in>set cs. - 1 < snd c) \<longrightarrow>
           (\<exists>d s. best_move sample_board 1 2 zero_rng = Inr ((d, s), g')
              \<and> first_greatest cs = Some (d, s))"
    by blast
  have cs: "cs = [(UP, 9), (DOWN, 23), (LEFT, 23), (RIGHT, 23)]" and g': "g' = zero_rng"
    using c(1) by (simp_all add: sample_candidates_deep)
  have fg: "first_greatest [(UP, 9), (DOWN, 23), (LEFT, 23), (RIGHT, 23)] = Some (DOWN, 23)"
    by simp
  have deep: "best_move sample_board 1 2 zero_rng = Inr ((DOWN, 23), zero_rng)"
    using c(2) fg unfolding cs g' by auto
  from best_move_selects_greatest [OF valid_sample_board b1, of 0 zero_rng]
  obtain cs0 g0 where
    c0: "best_move_candidates sample_board 0 1 zero_rng = Inr (cs0, g0)"
       "(\<exists>c\<in>set cs0. - 1 < snd c) \<longrightarrow>
           (\<exists>d s. best_move sample_board 0 1 zero_rng = Inr ((d, s), g0)
              \<and> first_greatest cs0 = Some (d, s))"
    by blast
  have cs0: "cs0 = [(UP, 0), (DOWN, 0), (LEFT, 20), (RIGHT, 20)]" and g0: "g0 = zero_rng"
    using c0(1) by (simp_all add: sample_candidates)
  have fg0: "first_greatest [(UP, 0), (DOWN, 0), (LEFT, 20), (RIGHT, 20)] = Some (LEFT, 20)"
    by simp
  have flat: "best_move sample_board 0 1 zero_rng = Inr ((LEFT, 20), zero_rng)"
    using c0(2) fg0 unfolding cs0 g0 by auto
  show ?thesis
    using valid_sample_board sample_candidates_deep sample_move_left sample_left_estimates
      fg deep sample_candidates fg0 flat
    by simp
qed

text \<open>
  Claim C1 as stated fails. On the board of fives with an empty bottom-right corner, with
  depth 1 and breadth 1, Up is skipped, the candidates are Down and Right with total
  \<open>-1\<close> each, the first greatest of them is Down, and \<^verbatim>\<open>best_move\<close> returns Up, which
  is not a candidate.
\<close>

theorem best_move_returns_skipped_direction:
  "best_move_candidates corner_board 1 1 zero_rng = Inr ([(DOWN, - 1), (RIGHT, - 1)], zero_rng)
   \<and> first_greatest [(DOWN, - 1), (RIGHT, - 1)] = Some (DOWN, - 1)
   \<and> best_move corner_board 1 1 zero_rng = Inr ((UP, - 1), zero_rng)
   \<and> returns_None (move corner_board UP zero_rng)"
  using corner_candidates corner_best_move corner_up by simp

text \<open>
  Claim C9. On a well-formed board (game over or not), with \<open>breadth \<ge> 1\<close> and any
  \<open>depth\<close>, the score that \<^verbatim>\<open>best_move\<close> returns is at least \<open>-1\<close>, hence never the
  sentinel \<open>-123456789\<close>; and when no candidate's total exceeds \<open>-1\<close>, \<^verbatim>\<open>best_move\<close>
  returns Up with score \<open>-1\<close>, whether or not Up is a candidate.
\<close>

theorem best_move_score_lower_bound:
  assumes "valid_board b" "1 \<le> breadth"
  shows "\<exists>cs d s g'. best_move_candidates b depth breadth g = Inr (cs, g')
      \<and> best_move b depth breadth g = Inr ((d, s), g')
      \<and> - 1 \<le> s \<and> s \<noteq> - 123456789
      \<and> ((\<forall>c\<in>set cs. snd c \<le> - 1) \<longrightarrow> (d, s) = (UP, - 1))"
proof -
  have "breadth \<noteq> 0" using assms(2) by simp
  from best_move_result [OF assms(1) this, of depth g] obtain cs g' where
    r: "best_move_candidates b depth breadth g = Inr (cs, g')"
       "best_move b depth breadth g = Inr (foldl better (UP, - 1) cs, g')"
    by blast
  obtain d s where ds: "foldl better (UP, - 1) cs = (d, s)"
    by (cases "foldl better (UP, - 1) cs")
  have lo: "- 1 \<le> s" using foldl_better_lower [of "(UP, - 1)" cs] ds by simp
  have keep: "(d, s) = (UP, - 1)" if "\<forall>c\<in>set cs. snd c \<le> - 1"
    using foldl_better_keep [of cs "(UP, - 1)"] that ds by simp
  show ?thesis
    using r ds lo keep by (intro exI [of _ cs] exI [of _ d] exI [of _ s] exI [of _ g']) auto
qed

text \<open>
  An instance where Up is returned although moving up is not legal.
\<close>

theorem best_move_score_lower_bound_witness:
  "valid_board corner_board \<and> (1 :: int) \<le> 1
   \<and> best_move_candidates corner_board 1 1 zero_rng =
       Inr ([(DOWN, - 1), (RIGHT, - 1)], zero_rng)
   \<and> best_move corner_board 1 1 zero_rng = Inr ((UP, - 1), zero_rng)
   \<and> returns_None (move corner_board UP zero_rng)"
proof -
  have b: "(1 :: int) \<le> 1" by simp
  from best_move_score_lower_bound [OF valid_corner_board b, of 1 zero_rng]
  obtain cs d s g' where
    c: "best_move_candidates corner_board 1 1 zero_rng = Inr (cs, g')"
       "best_move corner_board 1 1 zero_rng = Inr ((d, s), g')"
       "(\<forall>c\<in>set cs. snd c \<le> - 1) \<longrightarrow> (d, s) = (UP, - 1)"
    by blast
  have cs: "cs = [(DOWN, - 1), (RIGHT, - 1)]" and g': "g' = zero_rng"
    using c(1) by (simp_all add: corner_candidates)
  have "(d, s) = (UP, - 1)" using c(3) unfolding cs by simp
  then have "best_move corner_board 1 1 zero_rng = Inr ((UP, - 1), zero_rng)"
    using c(2) g' by simp
  then show ?thesis using valid_corner_board corner_candidates corner_up by simp
qed

text \<open>
  Claim C4 fails on the code. On the full board of fives every move returns
  \<^verbatim>\<open>(None, 0)\<close>, so the game is over; yet \<^verbatim>\<open>is_game_over\<close> returns \<^verbatim>\<open>False\<close> and
  \<^verbatim>\<open>best_move\<close> returns Up with score \<open>-1\<close>, not the sentinel \<open>-123456789\<close>, at depth 0
  and breadth 1 as well as at depth 3 and breadth 4.
\<close>

theorem best_move_on_game_over_board:
  "returns_None (move full_board UP zero_rng)
   \<and> returns_None (move full_board DOWN zero_rng)
   \<and> returns_None (move full_board LEFT zero_rng)
   \<and> returns_None (move full_board RIGHT zero_rng)
   \<and> is_game_over full_board zero_rng = Inr (False, zero_rng)
   \<and> best_move full_board 0 1 zero_rng = Inr ((UP, - 1), zero_rng)
   \<and> best_move full_board 3 4 zero_rng = Inr ((UP, - 1), zero_rng)"
  by (simp add: full_board_def returns_None_def search_eval board_eval)

text \<open>
  Claim C10 fails on the code. On the all-empty board every move returns
  \<^verbatim>\<open>(None, 0)\<close>, and \<^verbatim>\<open>is_game_over\<close> returns \<^verbatim>\<open>False\<close>.
\<close>

theorem is_game_over_on_empty_board:
  "returns_None (move empty_board UP zero_rng)
   \<and> returns_None (move empty_board DOWN zero_rng)
   \<and> returns_None (move empty_board LEFT zero_rng)
   \<and> returns_None (move empty_board RIGHT zero_rng)
   \<and> is_game_over empty_board zero_rng = Inr (False, zero_rng)"
  by (simp add: empty_board_def returns_None_def search_eval board_eval)

section \<open>The invariants of the data model are kept\<close>

lemma merge_ranks_nonneg:
  "\<forall>r\<in>set rs. 0 \<le> r \<Longrightarrow> \<forall>r\<in>set (fst (merge_ranks rs)). 0 \<le> r"
  by (induction rs rule: merge_ranks.induct) (auto split: prod.splits)

lemma slide_ranks_nonneg:
  assumes "\<forall>r\<in>set rs. 0 \<le> r"
  shows "\<forall>r\<in>set (fst (slide_ranks rs)). 0 \<le> r"
proof -
  have "\<forall>r\<in>set (filter (\<lambda>r. r \<noteq> 0) rs). 0 \<le> r" using assms by simp
  from merge_ranks_nonneg [OF this] show ?thesis
    by (auto simp: slide_ranks_def split: prod.splits)
qed

lemma shift_rows_nonneg: "nonneg_grid R \<Longrightarrow> nonneg_grid (fst (shift_rows rv R))"
proof -
  assume a: "nonneg_grid R"
  have "\<forall>r\<in>set (toward rv (fst (slide_ranks (toward rv rs)))). 0 \<le> r" if "rs \<in> set R" for rs
  proof -
    have "\<forall>r\<in>set (toward rv rs). 0 \<le> r"
      using a that by (auto simp: nonneg_grid_def toward_def)
    from slide_ranks_nonneg [OF this] show ?thesis by (auto simp: toward_def)
  qed
  then show ?thesis by (auto simp: nonneg_grid_def shift_rows_def)
qed

lemma move_ranks_nonneg:
  assumes "valid_board R" "nonneg_grid R"
  shows "nonneg_grid (fst (move_ranks d R))"
proof -
  have t: "nonneg_grid (tr (fst (shift_rows rv (tr R))))" for rv
    using assms
    by (intro nonneg_grid_tr shift_rows_valid shift_rows_nonneg valid_board_tr)
  show ?thesis using t assms(2) by (cases d) (simp_all add: shift_rows_nonneg)
qed

text \<open>
  The two invariants hold of the all-empty board, and \<open>move\<close> and \<^verbatim>\<open>with_random_tile\<close>
  keep them: every board that play or the search reaches is well formed with ranks that
  are not negative.
\<close>

lemma empty_board_invariants: "valid_board empty_board \<and> ranks_nonneg empty_board"
  by (simp add: valid_board_def ranks_nonneg_def empty_board_def)

lemma move_keeps_invariants:
  assumes "valid_board b" "ranks_nonneg b" "move b d g = Inr ((Some nb, s), g')"
  shows "valid_board nb \<and> ranks_nonneg nb"
proof -
  from move_ranks_result [OF assms(1), of d g] assms(3) obtain nb' where
    "Some nb = Some nb'" "ranks nb' = fst (move_ranks d (ranks b))" "valid_board nb'"
    by (auto split: if_splits)
  moreover have "nonneg_grid (fst (move_ranks d (ranks b)))"
    using assms(1,2) by (intro move_ranks_nonneg) (simp_all add: ranks_nonneg_grid)
  ultimately show ?thesis by (simp add: ranks_nonneg_grid)
qed

lemma with_random_tile_keeps_invariants:
  assumes "valid_board b" "ranks_nonneg b" "with_random_tile b g = Inr (t, g')"
  shows "valid_board t \<and> ranks_nonneg t"
proof -
  have v: "valid_board t"
    using with_random_tile_valid [OF assms(1), of g] assms(3) by auto
  have u: "ranks_nonneg (b[i := (b ! i)[j := (x, k)]])" if "0 \<le> x" for i j x k
  proof (cases "i < length b")
    case True
    have "b ! i \<in> set b" using True by simp
    then have "\<forall>c\<in>set (b ! i). 0 \<le> fst c"
      using assms(2) by (simp add: ranks_nonneg_def)
    then have "\<forall>c\<in>set ((b ! i)[j := (x, k)]). 0 \<le> fst c"
      using that set_update_subset_insert [of "b ! i" j "(x, k)"] by fastforce
    then show ?thesis
      using assms(2) set_update_subset_insert [of b i "(b ! i)[j := (x, k)]"]
      unfolding ranks_nonneg_def by blast
  next
    case False
    then have "b[i := (b ! i)[j := (x, k)]] = b" by (simp add: list_update_beyond)
    then show ?thesis using assms(2) by simp
  qed
  have "ranks_nonneg t"
    using assms(2,3) u unfolding with_random_tile_result [OF assms(1)]
    by (auto split: if_splits)
  with v show ?thesis by simp
qed

end
